theory Spec2Isabelle
  imports Main "HOL-Library.AList"
begin

section \<open>Python values\<close>

text \<open>
  The configuration handed over by \<open>ConfigManager\<close> is parsed YAML: nested
  dictionaries, lists and scalars. \<open>apply.py\<close> tests such values for truth,
  calls \<open>.get\<close> on them, iterates over them and uses them as dictionary keys,
  so they are modelled as one datatype with these operations. Mapping keys are
  strings; a dictionary is an association list in iteration order. Floats are
  left out.
\<close>

datatype pyval =
    PNone
  | PBool bool
  | PInt int
  | PStr string
  | PList "pyval list"
  | PDict "(string \<times> pyval) list"

datatype error =
    ConfigurationError string
  | AttributeError
  | TypeError
  | KeyError
  | IndexError
  | ValueError
  | CalledProcessError

text \<open>Truth value of an object, as tested by \<open>if x:\<close> and \<open>if not x:\<close>.\<close>

fun truthy :: "pyval \<Rightarrow> bool" where
  "truthy PNone = False"
| "truthy (PBool b) = b"
| "truthy (PInt i) = (i \<noteq> 0)"
| "truthy (PStr s) = (s \<noteq> [])"
| "truthy (PList xs) = (xs \<noteq> [])"
| "truthy (PDict kvs) = (kvs \<noteq> [])"

text \<open>\<open>x.get(key, default)\<close>: only a dictionary has the method.\<close>

fun py_get :: "pyval \<Rightarrow> string \<Rightarrow> pyval \<Rightarrow> error + pyval" where
  "py_get (PDict kvs) k d = Inr (case map_of kvs k of None \<Rightarrow> d | Some v \<Rightarrow> v)"
| "py_get _ k d = Inl AttributeError"

text \<open>
  \<open>for x in v\<close>: a list yields its elements, a string its characters (as
  one-character strings), a dictionary its keys; the other values are not
  iterable.
\<close>

fun py_iter :: "pyval \<Rightarrow> error + pyval list" where
  "py_iter (PList xs) = Inr xs"
| "py_iter (PStr s) = Inr (map (\<lambda>c. PStr [c]) s)"
| "py_iter (PDict kvs) = Inr (map (\<lambda>kv. PStr (fst kv)) kvs)"
| "py_iter _ = Inl TypeError"

text \<open>
  The key under which a dictionary files an object: lists and dictionaries
  are unhashable, and \<open>True\<close>/\<open>False\<close> are the same keys as \<open>1\<close>/\<open>0\<close>.
\<close>

fun py_key :: "pyval \<Rightarrow> error + pyval" where
  "py_key (PList xs) = Inl TypeError"
| "py_key (PDict kvs) = Inl TypeError"
| "py_key (PBool b) = Inr (PInt (if b then 1 else 0))"
| "py_key v = Inr v"

type_synonym table = "pyval \<rightharpoonup> pyval"

text \<open>\<open>t[k] = v\<close>\<close>

definition set_item :: "table \<Rightarrow> pyval \<Rightarrow> pyval \<Rightarrow> error + table" where
  "set_item t k v = (case py_key k of Inl e \<Rightarrow> Inl e | Inr k' \<Rightarrow> Inr (t(k' \<mapsto> v)))"

text \<open>
  \<open>k in t\<close> followed by \<open>t[k]\<close>: \<open>Inr None\<close> when the key is absent,
  \<open>Inr (Some v)\<close> when it is bound to \<open>v\<close>.
\<close>

definition lookup_item :: "table \<Rightarrow> pyval \<Rightarrow> error + pyval option" where
  "lookup_item t k = (case py_key k of Inl e \<Rightarrow> Inl e | Inr k' \<Rightarrow> Inr (t k'))"

text \<open>
  \<open>str.strip()\<close> and \<open>os.path.basename\<close>. Strings are byte strings here, so
  the white space is that of the ASCII range: tab, line feed, vertical tab,
  form feed, carriage return, the four separators 28 to 31, and space.
\<close>

definition py_isspace :: "char \<Rightarrow> bool" where
  "py_isspace c = ((of_char c :: nat) \<in> {9, 10, 11, 12, 13, 28, 29, 30, 31, 32})"

definition strip :: "string \<Rightarrow> string" where
  "strip s = rev (dropWhile py_isspace (rev (dropWhile py_isspace s)))"

definition basename :: "string \<Rightarrow> string" where
  "basename p = rev (takeWhile (\<lambda>c. c \<noteq> CHR ''/'') (rev p))"


section \<open>The collaborators of the rename planner\<close>

text \<open>
  \<open>ConfigManager\<close> is not part of \<open>apply.py\<close>; the three properties the code
  reads are taken as they are, each a dictionary from an id to its settings.
\<close>

record config_manager =
  physical_interfaces :: "(string \<times> pyval) list"
  bridges :: "(string \<times> pyval) list"
  bonds :: "(string \<times> pyval) list"

text \<open>
  What the planner reads from the running system, per interface name:
  \<^item> \<open>operstate\<close>: the contents of \<open>/sys/class/net/<name>/operstate\<close>, or
    \<open>None\<close> when opening or reading it raises \<open>IOError\<close>;
  \<^item> \<open>driver_realpath\<close>: \<open>os.path.realpath\<close> of
    \<open>/sys/class/net/<name>/device/driver\<close>, or \<open>None\<close> when it raises
    \<open>IOError\<close>;
  \<^item> \<open>af_link\<close>: \<open>netifaces.ifaddresses(name)[netifaces.AF_LINK]\<close>, a list of
    dictionaries, or the exception raised on the way.
\<close>

record sysfs =
  operstate :: "string \<Rightarrow> string option"
  driver_realpath :: "string \<Rightarrow> string option"
  af_link :: "string \<Rightarrow> error + pyval list"

record matches =
  by_driver :: table
  by_mac :: table

type_synonym changes = "(string \<times> pyval) list"


section \<open>is_composite_member\<close>

text \<open>The innermost loop, \<open>for iface in members: if iface == phy: return True\<close>.\<close>

fun scan_members :: "pyval list \<Rightarrow> string \<Rightarrow> bool" where
  "scan_members [] phy = False"
| "scan_members (iface # rest) phy = (if iface = PStr phy then True else scan_members rest phy)"

text \<open>
  The loop over \<open>composite.items()\<close>: \<open>Inr True\<close> is the early return,
  \<open>Inr False\<close> means the loop ran to its end.
\<close>

fun scan_composite :: "(string \<times> pyval) list \<Rightarrow> string \<Rightarrow> error + bool" where
  "scan_composite [] phy = Inr False"
| "scan_composite ((ident, settings) # rest) phy =
     (case py_get settings ''interfaces'' (PList []) of
        Inl e \<Rightarrow> Inl e
      | Inr members \<Rightarrow>
          (case py_iter members of
             Inl e \<Rightarrow> Inl e
           | Inr ms \<Rightarrow> if scan_members ms phy then Inr True else scan_composite rest phy))"

fun is_composite_member :: "(string \<times> pyval) list list \<Rightarrow> string \<Rightarrow> error + bool" where
  "is_composite_member [] phy = Inr False"
| "is_composite_member (composite # rest) phy =
     (case scan_composite composite phy of
        Inl e \<Rightarrow> Inl e
      | Inr found \<Rightarrow> if found then Inr True else is_composite_member rest phy)"


section \<open>process_link_changes\<close>

text \<open>
  One round of the loop over \<open>phys.items()\<close> (lines 166 to 182): the guards
  in the order of the source, then the two stores.
\<close>

definition match_rule :: "matches \<Rightarrow> string \<times> pyval \<Rightarrow> error + matches" where
  "match_rule m entry =
     (case entry of (phy, settings) \<Rightarrow>
      if \<not> truthy settings then Inr m
      else if phy = ''renderer'' then Inr m
      else
        (case py_get settings ''set-name'' PNone of
           Inl e \<Rightarrow> Inl e
         | Inr newname \<Rightarrow>
             if \<not> truthy newname then Inr m
             else
               (case py_get settings ''match'' PNone of
                  Inl e \<Rightarrow> Inl e
                | Inr mtch \<Rightarrow>
                    if \<not> truthy mtch then Inr m
                    else
                      (case py_get mtch ''driver'' PNone of
                         Inl e \<Rightarrow> Inl e
                       | Inr driver \<Rightarrow>
                           (case py_get mtch ''macaddress'' PNone of
                              Inl e \<Rightarrow> Inl e
                            | Inr mac \<Rightarrow>
                                (case (if truthy driver then set_item (by_driver m) driver newname
                                       else Inr (by_driver m)) of
                                   Inl e \<Rightarrow> Inl e
                                 | Inr bd \<Rightarrow>
                                     (case (if truthy mac then set_item (by_mac m) mac newname
                                            else Inr (by_mac m)) of
                                        Inl e \<Rightarrow> Inl e
                                      | Inr bm \<Rightarrow> Inr \<lparr>by_driver = bd, by_mac = bm\<rparr>)))))))"

fun build_matches :: "matches \<Rightarrow> (string \<times> pyval) list \<Rightarrow> error + matches" where
  "build_matches m [] = Inr m"
| "build_matches m (entry # rest) =
     (case match_rule m entry of
        Inl e \<Rightarrow> Inl e
      | Inr m' \<Rightarrow> build_matches m' rest)"

definition no_matches :: matches where
  "no_matches = \<lparr>by_driver = Map.empty, by_mac = Map.empty\<rparr>"

text \<open>
  \<open>changes.update({interface: {'name': new_name}})\<close> when the table has the
  key and the name it gives differs from the interface's own.
\<close>

definition record_change :: "table \<Rightarrow> pyval \<Rightarrow> string \<Rightarrow> changes \<Rightarrow> error + changes" where
  "record_change t k interface chs =
     (case lookup_item t k of
        Inl e \<Rightarrow> Inl e
      | Inr None \<Rightarrow> Inr chs
      | Inr (Some new_name) \<Rightarrow>
          if new_name \<noteq> PStr interface
          then Inr (AList.update interface (PDict [(''name'', new_name)]) chs)
          else Inr chs)"

text \<open>One round of the loop over the live interfaces (lines 186 to 227).\<close>

definition link_change ::
  "sysfs \<Rightarrow> (string \<times> pyval) list \<Rightarrow> (string \<times> pyval) list list \<Rightarrow> matches \<Rightarrow>
   changes \<Rightarrow> string \<Rightarrow> error + changes" where
  "link_change sys phys composite_interfaces m chs interface =
     (if interface \<notin> fst ` set phys then Inr chs
      else
        (case is_composite_member composite_interfaces interface of
           Inl e \<Rightarrow> Inl e
         | Inr member \<Rightarrow>
             if member then Inr chs
             else
               (case operstate sys interface of
                  None \<Rightarrow> Inr chs
                | Some content \<Rightarrow>
                    if strip content \<noteq> ''down'' then Inr chs
                    else
                      (let driver_name =
                             (case driver_realpath sys interface of
                                None \<Rightarrow> PNone
                              | Some driver \<Rightarrow> PStr (basename driver))
                       in
                         (case af_link sys interface of
                            Inl e \<Rightarrow> Inl e
                          | Inr [] \<Rightarrow> Inl IndexError
                          | Inr (link # _) \<Rightarrow>
                              (case py_get link ''addr'' PNone of
                                 Inl e \<Rightarrow> Inl e
                               | Inr macaddress \<Rightarrow>
                                   (case record_change (by_driver m) driver_name interface chs of
                                      Inl e \<Rightarrow> Inl e
                                    | Inr chs' \<Rightarrow>
                                        record_change (by_mac m) macaddress interface chs')))))))"

fun link_loop ::
  "sysfs \<Rightarrow> (string \<times> pyval) list \<Rightarrow> (string \<times> pyval) list list \<Rightarrow> matches \<Rightarrow>
   changes \<Rightarrow> string list \<Rightarrow> error + changes" where
  "link_loop sys phys composite_interfaces m chs [] = Inr chs"
| "link_loop sys phys composite_interfaces m chs (interface # rest) =
     (case link_change sys phys composite_interfaces m chs interface of
        Inl e \<Rightarrow> Inl e
      | Inr chs' \<Rightarrow> link_loop sys phys composite_interfaces m chs' rest)"

definition process_link_changes :: "sysfs \<Rightarrow> string list \<Rightarrow> config_manager \<Rightarrow> error + changes" where
  "process_link_changes sys interfaces cm =
     (let phys = physical_interfaces cm;
          composite_interfaces = [bridges cm, bonds cm]
      in
        (case build_matches no_matches phys of
           Inl e \<Rightarrow> Inl e
         | Inr m \<Rightarrow> link_loop sys phys composite_interfaces m [] interfaces))"


section \<open>command_apply\<close>

text \<open>
  A pass is observed through the calls it makes to the outside, in order,
  and through the way it ends. The trace holds the generator call, the
  \<open>log.debug\<close> calls of \<open>command_apply\<close> itself (format string and
  arguments), the calls to \<open>utils.systemctl_networkd\<close>, \<open>utils.nmcli\<close> and
  \<open>utils.systemctl_network_manager\<close>, and the \<open>subprocess.check_call\<close>
  command lines. The logging of \<open>process_link_changes\<close> and
  \<open>is_composite_member\<close> does not touch their results and is not recorded.
\<close>

datatype event =
    Generate
  | Log string "pyval list"
  | Systemctl_networkd string bool "string list"
  | Nmcli "string list"
  | Systemctl_network_manager string bool
  | Check_call "string list"

datatype outcome = Returned | Exited int | Raised error

type_synonym run = "event list \<times> outcome"

text \<open>
  The system a pass runs on: the results of the two \<open>glob\<close> probes before
  and after generation, the generator's exit status, the list returned by
  \<open>netifaces.interfaces()\<close>, \<open>utils.nm_running()\<close>, the configuration read by
  \<open>ConfigManager.parse()\<close> (or the exception it raises), the device
  attributes, which external commands exit non-zero, and the result of the
  \<open>glob\<close> for the \<open>netplan-wpa@\<close> units.
\<close>

record system =
  networkd_files_before :: "string list"
  nm_files_before :: "string list"
  generator_status :: int
  networkd_files_after :: "string list"
  nm_files_after :: "string list"
  live_interfaces :: "string list"
  nm_running :: bool
  parsed :: "error + config_manager"
  sysfs_of :: sysfs
  fails :: "event \<Rightarrow> bool"
  wpa_wants :: "string list"

definition EX_CONFIG :: int where
  "EX_CONFIG = 78"

text \<open>Sequencing: the second part runs only if the first returned.\<close>

definition andthen :: "run \<Rightarrow> run \<Rightarrow> run" where
  "andthen a b = (case snd a of Returned \<Rightarrow> (fst a @ fst b, snd b) | _ \<Rightarrow> a)"

definition log_debug :: "string \<Rightarrow> pyval list \<Rightarrow> run" where
  "log_debug fmt args = ([Log fmt args], Returned)"

text \<open>An external command that raises \<open>CalledProcessError\<close> when it fails.\<close>

definition call :: "system \<Rightarrow> event \<Rightarrow> run" where
  "call s ev = ([ev], if fails s ev then Raised CalledProcessError else Returned)"

definition join :: "string \<Rightarrow> string list \<Rightarrow> string" where
  "join sep xs = (case xs of [] \<Rightarrow> [] | y # ys \<Rightarrow> y @ concat (map (\<lambda>x. sep @ x) ys))"

text \<open>Lines 52 to 56.\<close>

definition generate :: "system \<Rightarrow> bool \<Rightarrow> bool \<Rightarrow> run" where
  "generate s run_generate exit_on_error =
     (if run_generate then
        (if generator_status s \<noteq> 0 then
           ([Generate],
            if exit_on_error then Exited EX_CONFIG
            else Raised (ConfigurationError ''the configuration could not be generated''))
         else ([Generate], Returned))
      else ([], Returned))"

text \<open>
  Lines 67 to 69 (and 70 to 72): \<open>new_files\<close> is the probe after
  generation, \<open>old_files\<close> the one before.
\<close>

definition restart_decision :: "bool \<Rightarrow> bool \<Rightarrow> bool" where
  "restart_decision old_files new_files =
     (let restart = new_files
      in if \<not> restart \<and> old_files then True else restart)"

text \<open>Lines 75 to 79.\<close>

definition stop_networkd :: "system \<Rightarrow> bool \<Rightarrow> bool \<Rightarrow> run" where
  "stop_networkd s sync restart_networkd =
     (if restart_networkd then
        andthen (log_debug ''networkd configuration changed, stopping networkd'' [])
                (call s (Systemctl_networkd ''stop'' sync [''netplan-wpa@*.service'']))
      else log_debug ''no networkd configuration generated: not restarting networkd'' [])"

text \<open>
  Lines 85 to 90: a failing \<open>nmcli\<close> is caught and ignored, so the loop
  always runs to its end.
\<close>

fun disconnect_devices :: "string list \<Rightarrow> run" where
  "disconnect_devices [] = ([], Returned)"
| "disconnect_devices (device # rest) =
     andthen ([Nmcli [''device'', ''disconnect'', device]], Returned) (disconnect_devices rest)"

text \<open>Lines 81 to 94.\<close>

definition stop_nm :: "system \<Rightarrow> bool \<Rightarrow> bool \<Rightarrow> string list \<Rightarrow> run" where
  "stop_nm s sync restart_nm devices =
     (if restart_nm then
        andthen (log_debug ''NetworkManager configuration changed, stopping NetworkManager'' [])
          (if nm_running s then
             andthen (disconnect_devices devices)
                     (call s (Systemctl_network_manager ''stop'' sync))
           else ([], Returned))
      else log_debug ''no NetworkManager configuration generated: not restarting NetworkManager'' [])"

text \<open>Lines 102 to 108.\<close>

fun trigger_link_rules :: "system \<Rightarrow> string list \<Rightarrow> run" where
  "trigger_link_rules s [] = ([], Returned)"
| "trigger_link_rules s (device # rest) =
     andthen (log_debug ''triggering .link rules for %s'' [PStr device])
       (andthen (call s (Check_call [''udevadm'', ''test-builtin'', ''net_setup_link'',
                                     ''/sys/class/net/'' @ device]))
                (trigger_link_rules s rest))"

text \<open>
  Lines 111 to 119. \<open>check_call\<close> takes strings: any other value in the
  command line is a \<open>TypeError\<close>.
\<close>

fun apply_renames :: "system \<Rightarrow> changes \<Rightarrow> run" where
  "apply_renames s [] = ([], Returned)"
| "apply_renames s ((iface, settings) # rest) =
     (case py_get settings ''name'' PNone of
        Inl e \<Rightarrow> ([], Raised e)
      | Inr new_name \<Rightarrow>
          if truthy new_name then
            andthen (log_debug ''applying name change for %s: now called %s'' [PStr iface, new_name])
              (andthen
                 (case new_name of
                    PStr n \<Rightarrow> call s (Check_call [''ip'', ''link'', ''set'', ''dev'', iface, ''name'', n])
                  | _ \<Rightarrow> ([], Raised TypeError))
                 (apply_renames s rest))
          else apply_renames s rest)"

text \<open>Lines 124 to 131.\<close>

definition start_backends :: "system \<Rightarrow> bool \<Rightarrow> bool \<Rightarrow> bool \<Rightarrow> run" where
  "start_backends s sync restart_networkd restart_nm =
     andthen
       (if restart_networkd then
          (let netplan_wpa = map basename (wpa_wants s)
           in andthen (log_debug ''re-starting networkd'' [])
                (andthen (log_debug ''starting extra networkd services: %s''
                                    [PStr (join '','' netplan_wpa)])
                         (call s (Systemctl_networkd ''start'' sync netplan_wpa))))
        else ([], Returned))
       (if restart_nm then
          andthen (log_debug ''re-starting NetworkManager'' [])
                  (call s (Systemctl_network_manager ''start'' sync))
        else ([], Returned))"

text \<open>Lines 98 to 131, once both decisions are made and the backends stopped.\<close>

definition rename_and_start :: "system \<Rightarrow> bool \<Rightarrow> bool \<Rightarrow> bool \<Rightarrow> string list \<Rightarrow> run" where
  "rename_and_start s sync restart_networkd restart_nm devices =
     (case parsed s of
        Inl e \<Rightarrow> ([], Raised e)
      | Inr config_manager \<Rightarrow>
          (case process_link_changes (sysfs_of s) devices config_manager of
             Inl e \<Rightarrow> ([], Raised e)
           | Inr chs \<Rightarrow>
               andthen (trigger_link_rules s devices)
                 (andthen (apply_renames s chs)
                    (andthen (call s (Check_call [''udevadm'', ''settle'']))
                             (start_backends s sync restart_networkd restart_nm)))))"

definition command_apply :: "system \<Rightarrow> bool \<Rightarrow> bool \<Rightarrow> bool \<Rightarrow> run" where
  "command_apply s run_generate sync exit_on_error =
     (let old_files_networkd = (networkd_files_before s \<noteq> []);
          old_files_nm = (nm_files_before s \<noteq> [])
      in
        andthen (generate s run_generate exit_on_error)
          (let devices = live_interfaces s;
               restart_networkd = restart_decision old_files_networkd (networkd_files_after s \<noteq> []);
               restart_nm = restart_decision old_files_nm (nm_files_after s \<noteq> [])
           in
             andthen (stop_networkd s sync restart_networkd)
               (andthen (stop_nm s sync restart_nm devices)
                        (rename_and_start s sync restart_networkd restart_nm devices))))"


section \<open>Notions used to state the properties\<close>

text \<open>
  An interface passes the gates of the planner's loop (lines 187 to 206)
  when it is declared physical, \<open>is_composite_member\<close> answers \<open>False\<close> and
  its operational state reads \<open>down\<close>.
\<close>

definition eligible ::
  "sysfs \<Rightarrow> (string \<times> pyval) list \<Rightarrow> (string \<times> pyval) list list \<Rightarrow> string \<Rightarrow> bool" where
  "eligible sys phys composite_interfaces interface =
     (interface \<in> fst ` set phys \<and>
      is_composite_member composite_interfaces interface = Inr False \<and>
      map_option strip (operstate sys interface) = Some ''down'')"

text \<open>
  The member list of a composite as the specification has it (its
  \<open>memberInterfaceNames\<close>), and membership in some composite's member list.
\<close>

definition member_names :: "pyval \<Rightarrow> pyval list" where
  "member_names settings =
     (case settings of
        PDict kvs \<Rightarrow> (case map_of kvs ''interfaces'' of Some (PList names) \<Rightarrow> names | _ \<Rightarrow> [])
      | _ \<Rightarrow> [])"

definition declared_member :: "(string \<times> pyval) list list \<Rightarrow> string \<Rightarrow> bool" where
  "declared_member composites phy =
     (\<exists>composite \<in> set composites. \<exists>entry \<in> set composite. PStr phy \<in> set (member_names (snd entry)))"

text \<open>
  A composite in the shape of the specification's data model: a dictionary
  whose \<open>interfaces\<close>, when given, is a list.
\<close>

definition composite_spec :: "pyval \<Rightarrow> bool" where
  "composite_spec settings =
     (case settings of
        PDict kvs \<Rightarrow>
          (case map_of kvs ''interfaces'' of
             None \<Rightarrow> True
           | Some (PList names) \<Rightarrow> True
           | Some _ \<Rightarrow> False)
      | _ \<Rightarrow> False)"

definition composite_specs :: "(string \<times> pyval) list list \<Rightarrow> bool" where
  "composite_specs composites =
     (\<forall>composite \<in> set composites. \<forall>entry \<in> set composite. composite_spec (snd entry))"

text \<open>
  The declared entries the specification calls inert: the \<open>renderer\<close> key,
  an empty settings block, a settings dictionary without a target name, and
  one without a match block.
\<close>

definition inert :: "string \<times> pyval \<Rightarrow> bool" where
  "inert entry =
     (case entry of (phy, settings) \<Rightarrow>
        phy = ''renderer'' \<or> \<not> truthy settings \<or>
        (case settings of
           PDict kvs \<Rightarrow>
             (case map_of kvs ''set-name'' of None \<Rightarrow> True | Some newname \<Rightarrow> \<not> truthy newname) \<or>
             (case map_of kvs ''match'' of None \<Rightarrow> True | Some mtch \<Rightarrow> \<not> truthy mtch)
         | _ \<Rightarrow> False))"

text \<open>
  The calls that take the NetworkManager-style backend down: every \<open>nmcli\<close>
  call and the \<open>stop\<close> of the service. A run is quiet when it makes none.
\<close>

definition nm_stopping :: "event \<Rightarrow> bool" where
  "nm_stopping ev =
     (case ev of
        Nmcli argv \<Rightarrow> True
      | Systemctl_network_manager action sync \<Rightarrow> action = ''stop''
      | _ \<Rightarrow> False)"

definition quiet :: "run \<Rightarrow> bool" where
  "quiet r = (\<forall>ev \<in> set (fst r). \<not> nm_stopping ev)"

text \<open>
  The rename primitive \<open>ip link set dev old name new\<close> belongs to the kernel,
  not to \<open>apply.py\<close>. When it succeeds the device answers to its new name
  with the attributes it had, and nothing answers to the old name any more.
\<close>

definition moved :: "(string \<Rightarrow> 'a) \<Rightarrow> string \<Rightarrow> string \<Rightarrow> 'a \<Rightarrow> string \<Rightarrow> 'a" where
  "moved f old new gone = (\<lambda>n. if n = new then f old else if n = old then gone else f n)"

definition renamed :: "string \<Rightarrow> string \<Rightarrow> string list \<times> sysfs \<Rightarrow> string list \<times> sysfs" where
  "renamed old new w =
     (map (\<lambda>n. if n = old then new else n) (fst w),
      \<lparr>operstate = moved (operstate (snd w)) old new None,
       driver_realpath = moved (driver_realpath (snd w)) old new None,
       af_link = moved (af_link (snd w)) old new (Inl ValueError)\<rparr>)"

text \<open>The state after every rename of a change set has been carried out, in order.\<close>

fun after_renames :: "changes \<Rightarrow> string list \<times> sysfs \<Rightarrow> string list \<times> sysfs" where
  "after_renames [] w = w"
| "after_renames ((iface, settings) # rest) w =
     (case py_get settings ''name'' PNone of
        Inr (PStr new_name) \<Rightarrow>
          if new_name \<noteq> [] then after_renames rest (renamed iface new_name w)
          else after_renames rest w
      | _ \<Rightarrow> after_renames rest w)"

text \<open>
  The planner run again on the state that applying its first change set
  leaves behind.
\<close>

definition second_run :: "sysfs \<Rightarrow> string list \<Rightarrow> config_manager \<Rightarrow> error + changes" where
  "second_run sys interfaces cm =
     (case process_link_changes sys interfaces cm of
        Inl e \<Rightarrow> Inl e
      | Inr chs \<Rightarrow>
          process_link_changes (snd (after_renames chs (interfaces, sys)))
                               (fst (after_renames chs (interfaces, sys))) cm)"


text \<open>
  The driver name the loop resolves for an interface (lines 208 to 214), and
  the absence of a conflict: the interface's driver name and hardware
  address are not mapped to two different target names.
\<close>

definition driver_name_of :: "sysfs \<Rightarrow> string \<Rightarrow> pyval" where
  "driver_name_of sys interface =
     (case driver_realpath sys interface of
        None \<Rightarrow> PNone
      | Some driver \<Rightarrow> PStr (basename driver))"

definition agree :: "sysfs \<Rightarrow> matches \<Rightarrow> string \<Rightarrow> bool" where
  "agree sys m interface =
     (case by_driver m (driver_name_of sys interface) of
        None \<Rightarrow> True
      | Some A \<Rightarrow>
          (case af_link sys interface of
             Inr (link # _) \<Rightarrow>
               (case py_get link ''addr'' PNone of
                  Inr macaddress \<Rightarrow>
                    (case lookup_item (by_mac m) macaddress of
                       Inr (Some B) \<Rightarrow> A = B
                     | _ \<Rightarrow> True)
                | _ \<Rightarrow> True)
           | _ \<Rightarrow> True))"

definition conflict_free :: "sysfs \<Rightarrow> config_manager \<Rightarrow> string \<Rightarrow> bool" where
  "conflict_free sys cm interface =
     (case build_matches no_matches (physical_interfaces cm) of
        Inl e \<Rightarrow> True
      | Inr m \<Rightarrow> agree sys m interface)"

text \<open>
  An interface is settled when every target name that its driver name or its
  hardware address is mapped to is the name it bears.
\<close>

definition settled :: "sysfs \<Rightarrow> config_manager \<Rightarrow> string \<Rightarrow> bool" where
  "settled sys cm interface =
     (case build_matches no_matches (physical_interfaces cm) of
        Inl e \<Rightarrow> True
      | Inr m \<Rightarrow>
          (case by_driver m (driver_name_of sys interface) of
             None \<Rightarrow> True
           | Some A \<Rightarrow> A = PStr interface) \<and>
          (case af_link sys interface of
             Inr (link # _) \<Rightarrow>
               (case py_get link ''addr'' PNone of
                  Inr macaddress \<Rightarrow>
                    (case lookup_item (by_mac m) macaddress of
                       Inr (Some B) \<Rightarrow> B = PStr interface
                     | _ \<Rightarrow> True)
                | _ \<Rightarrow> True)
           | _ \<Rightarrow> True))"

text \<open>
  The new name a change-set entry asks for when the rename primitive can be
  called with it (a non-empty string), the new names of a change set, and
  change sets whose entries can all be carried out.
\<close>

definition new_name_of :: "pyval \<Rightarrow> string option" where
  "new_name_of settings =
     (case py_get settings ''name'' PNone of
        Inr (PStr new_name) \<Rightarrow> if new_name \<noteq> [] then Some new_name else None
      | _ \<Rightarrow> None)"

definition planned_names :: "changes \<Rightarrow> string list" where
  "planned_names chs = List.map_filter (\<lambda>entry. new_name_of (snd entry)) chs"

definition renameable :: "changes \<Rightarrow> bool" where
  "renameable chs = list_all (\<lambda>entry. new_name_of (snd entry) \<noteq> None) chs"

text \<open>
  What the two lookups of lines 218 to 227 decide for an interface, given the
  results \<open>x\<close> and \<open>y\<close> of the by-driver and the by-mac lookup, and the
  store of that decision into the change set.
\<close>

definition decide :: "pyval option \<Rightarrow> pyval option \<Rightarrow> string \<Rightarrow> pyval option" where
  "decide x y i =
     (case y of
        Some B \<Rightarrow>
          if B \<noteq> PStr i then Some B
          else (case x of Some A \<Rightarrow> if A \<noteq> PStr i then Some A else None | None \<Rightarrow> None)
      | None \<Rightarrow> (case x of Some A \<Rightarrow> if A \<noteq> PStr i then Some A else None | None \<Rightarrow> None))"

definition put :: "string \<Rightarrow> pyval option \<Rightarrow> changes \<Rightarrow> changes" where
  "put i d chs = (case d of None \<Rightarrow> chs | Some v \<Rightarrow> AList.update i (PDict [(''name'', v)]) chs)"

text \<open>
  The decision of the loop for one interface, whatever has been recorded
  before; the name an interface bears once a change set is applied; and two
  names that stand for the same device in two states.
\<close>

definition decision ::
  "sysfs \<Rightarrow> (string \<times> pyval) list \<Rightarrow> (string \<times> pyval) list list \<Rightarrow> matches \<Rightarrow> string \<Rightarrow> pyval option" where
  "decision sys phys comps m i =
     (if eligible sys phys comps i then
        (case af_link sys i of
           Inr (link # _) \<Rightarrow>
             (case py_get link ''addr'' PNone of
                Inr macaddress \<Rightarrow>
                  (case lookup_item (by_mac m) macaddress of
                     Inr y \<Rightarrow> decide (by_driver m (driver_name_of sys i)) y i
                   | _ \<Rightarrow> None)
              | _ \<Rightarrow> None)
         | _ \<Rightarrow> None)
      else None)"

definition name_after :: "changes \<Rightarrow> string \<Rightarrow> string" where
  "name_after chs i =
     (case map_of chs i of
        Some settings \<Rightarrow> (case new_name_of settings of Some n \<Rightarrow> n | None \<Rightarrow> i)
      | None \<Rightarrow> i)"

definition same_device :: "sysfs \<Rightarrow> string \<Rightarrow> sysfs \<Rightarrow> string \<Rightarrow> bool" where
  "same_device sys' j sys i =
     (operstate sys' j = operstate sys i \<and>
      driver_realpath sys' j = driver_realpath sys i \<and>
      af_link sys' j = af_link sys i)"


section \<open>Concrete systems\<close>

text \<open>
  A host with a loopback device and four declared interfaces: \<open>eth0\<close> is up,
  \<open>eth1\<close> is down and driven by \<open>e1000\<close>, \<open>eth2\<close> is down and has the
  hardware address of the second rule, \<open>eth3\<close> is down and enslaved to
  \<open>br0\<close>.
\<close>

definition rule :: "string \<Rightarrow> (string \<times> pyval) list \<Rightarrow> pyval" where
  "rule target criteria = PDict [(''set-name'', PStr target), (''match'', PDict criteria)]"

definition host_cm :: config_manager where
  "host_cm =
     \<lparr>physical_interfaces =
        [(''renderer'', PStr ''networkd''),
         (''eth0'', PDict [(''dhcp4'', PBool True)]),
         (''eth1'', rule ''lan0'' [(''driver'', PStr ''e1000'')]),
         (''eth2'', rule ''wan0'' [(''macaddress'', PStr ''aa:bb:cc:dd:ee:ff'')]),
         (''eth3'', PDict [])],
      bridges = [(''br0'', PDict [(''interfaces'', PList [PStr ''eth3''])])],
      bonds = []\<rparr>"

definition host_sysfs :: sysfs where
  "host_sysfs =
     \<lparr>operstate = (\<lambda>n. if n = ''eth0'' then Some ''up\<newline>'' else Some ''down\<newline>''),
      driver_realpath =
        (\<lambda>n. if n = ''eth2'' then Some ''/sys/bus/pci/drivers/r8169''
             else Some ''/sys/bus/pci/drivers/e1000''),
      af_link =
        (\<lambda>n. Inr [PDict [(''addr'', PStr (if n = ''eth2'' then ''aa:bb:cc:dd:ee:ff''
                                           else ''52:54:00:12:34:56''))]])\<rparr>"

definition host_interfaces :: "string list" where
  "host_interfaces = [''lo'', ''eth0'', ''eth1'', ''eth2'', ''eth3'']"

definition host :: system where
  "host =
     \<lparr>networkd_files_before = [],
      nm_files_before = [''/run/NetworkManager/system-connections/netplan-eth0''],
      generator_status = 0,
      networkd_files_after = [''/run/systemd/network/10-netplan-eth1.link''],
      nm_files_after = [],
      live_interfaces = host_interfaces,
      nm_running = False,
      parsed = Inr host_cm,
      sysfs_of = host_sysfs,
      fails = (\<lambda>ev. False),
      wpa_wants = []\<rparr>"

text \<open>The same host, on which renaming \<open>eth1\<close> fails.\<close>

definition broken_host :: system where
  "broken_host =
     host\<lparr>fails := (\<lambda>ev. ev = Check_call [''ip'', ''link'', ''set'', ''dev'', ''eth1'', ''name'', ''lan0''])\<rparr>"

text \<open>
  One interface that matches a driver rule and a hardware-address rule with
  different target names.
\<close>

definition torn_cm :: config_manager where
  "torn_cm =
     \<lparr>physical_interfaces =
        [(''eth0'', rule ''ethA'' [(''driver'', PStr ''e1000'')]),
         (''ethB'', rule ''ethB'' [(''macaddress'', PStr ''aa:bb:cc:dd:ee:ff'')])],
      bridges = [],
      bonds = []\<rparr>"

definition torn_sysfs :: sysfs where
  "torn_sysfs =
     \<lparr>operstate = (\<lambda>n. Some ''down\<newline>''),
      driver_realpath = (\<lambda>n. Some ''/sys/bus/pci/drivers/e1000''),
      af_link = (\<lambda>n. Inr [PDict [(''addr'', PStr ''aa:bb:cc:dd:ee:ff'')]])\<rparr>"

text \<open>A configuration whose declared entries are all inert.\<close>

definition idle_cm :: config_manager where
  "idle_cm =
     \<lparr>physical_interfaces =
        [(''renderer'', PStr ''networkd''),
         (''eth0'', PDict [(''dhcp4'', PBool True)]),
         (''eth1'', PDict [(''set-name'', PStr ''lan0''), (''dhcp4'', PBool True)]),
         (''eth2'', PDict [(''match'', PDict [(''driver'', PStr ''e1000'')])]),
         (''eth3'', PDict [])],
      bridges = [],
      bonds = []\<rparr>"


section \<open>The keys of the change set\<close>

lemma record_change_cases:
  "record_change t k i chs = Inr chs' \<Longrightarrow>
     chs' = chs \<or> (\<exists>v. chs' = AList.update i v chs)"
  by (auto simp: record_change_def split: sum.splits option.splits if_splits)

lemma record_change_keys:
  "record_change t k i chs = Inr chs' \<Longrightarrow> fst ` set chs' \<subseteq> insert i (fst ` set chs)"
  using dom_update[of i _ chs] by (auto dest!: record_change_cases)

lemma record_change_other:
  "record_change t k i chs = Inr chs' \<Longrightarrow> j \<noteq> i \<Longrightarrow> map_of chs' j = map_of chs j"
  by (auto dest!: record_change_cases simp: update_conv')

lemma link_change_Inr:
  assumes "link_change sys phys comps m chs i = Inr chs'"
  shows "chs' = chs \<or>
         (eligible sys phys comps i \<and>
          (\<exists>dn mac c1. record_change (by_driver m) dn i chs = Inr c1 \<and>
                        record_change (by_mac m) mac i c1 = Inr chs'))"
  using assms unfolding link_change_def eligible_def
  by (auto simp: Let_def split: sum.splits option.splits if_splits list.splits)

lemma link_change_skip:
  "\<not> eligible sys phys comps i \<Longrightarrow> link_change sys phys comps m chs i = Inr chs' \<Longrightarrow> chs' = chs"
  by (auto dest: link_change_Inr)

lemma link_change_keys:
  assumes "link_change sys phys comps m chs i = Inr chs'"
  shows "fst ` set chs' \<subseteq> insert i (fst ` set chs)"
  using link_change_Inr[OF assms]
proof
  assume "chs' = chs" then show ?thesis by auto
next
  assume "eligible sys phys comps i \<and>
          (\<exists>dn mac c1. record_change (by_driver m) dn i chs = Inr c1 \<and>
                        record_change (by_mac m) mac i c1 = Inr chs')"
  then obtain dn mac c1 where a: "record_change (by_driver m) dn i chs = Inr c1"
    and b: "record_change (by_mac m) mac i c1 = Inr chs'" by blast
  from record_change_keys[OF a] record_change_keys[OF b] show ?thesis by blast
qed

lemma link_change_other:
  assumes "link_change sys phys comps m chs i = Inr chs'" "j \<noteq> i"
  shows "map_of chs' j = map_of chs j"
  using link_change_Inr[OF assms(1)]
proof
  assume "chs' = chs" then show ?thesis by auto
next
  assume "eligible sys phys comps i \<and>
          (\<exists>dn mac c1. record_change (by_driver m) dn i chs = Inr c1 \<and>
                        record_change (by_mac m) mac i c1 = Inr chs')"
  then obtain dn mac c1 where a: "record_change (by_driver m) dn i chs = Inr c1"
    and b: "record_change (by_mac m) mac i c1 = Inr chs'" by blast
  from record_change_other[OF a assms(2)] record_change_other[OF b assms(2)] show ?thesis by simp
qed

lemma link_loop_keys:
  "link_loop sys phys comps m chs is = Inr chs' \<Longrightarrow> k \<in> fst ` set chs' \<Longrightarrow>
     k \<in> fst ` set chs \<or> (k \<in> set is \<and> eligible sys phys comps k)"
proof (induction "is" arbitrary: chs)
  case Nil
  then show ?case by simp
next
  case (Cons i "is")
  from Cons.prems(1) obtain c1 where c1: "link_change sys phys comps m chs i = Inr c1"
    and rest: "link_loop sys phys comps m c1 is = Inr chs'"
    by (auto split: sum.splits)
  from Cons.IH[OF rest Cons.prems(2)] show ?case
  proof
    assume k: "k \<in> fst ` set c1"
    show ?thesis
    proof (cases "eligible sys phys comps i")
      case True
      with k link_change_keys[OF c1] show ?thesis by auto
    next
      case False
      with k link_change_skip[OF False c1] show ?thesis by auto
    qed
  next
    assume "k \<in> set is \<and> eligible sys phys comps k"
    then show ?thesis by simp
  qed
qed


lemma scan_members_iff: "scan_members ms phy = (PStr phy \<in> set ms)"
  by (induction ms) auto

lemma scan_composite_False:
  "scan_composite composite phy = Inr False \<Longrightarrow> entry \<in> set composite \<Longrightarrow>
     PStr phy \<notin> set (member_names (snd entry))"
proof (induction composite phy rule: scan_composite.induct)
  case (1 phy)
  then show ?case by simp
next
  case (2 ident settings rest phy)
  from "2.prems"(1) obtain members ms where
    g: "py_get settings ''interfaces'' (PList []) = Inr members" and
    it: "py_iter members = Inr ms" and
    nf: "\<not> scan_members ms phy" and
    r: "scan_composite rest phy = Inr False"
    by (auto split: sum.splits if_splits)
  show ?case
  proof (cases "entry = (ident, settings)")
    case True
    from g it nf show ?thesis unfolding True
      by (cases settings) (auto simp: member_names_def scan_members_iff split: option.splits pyval.splits)
  next
    case False
    with "2.prems"(2) have "entry \<in> set rest" by simp
    from "2.IH"[OF g it nf r this] show ?thesis .
  qed
qed

lemma is_composite_member_False:
  "is_composite_member composites phy = Inr False \<Longrightarrow> \<not> declared_member composites phy"
proof (induction composites)
  case Nil
  then show ?case by (simp add: declared_member_def)
next
  case (Cons c cs)
  from Cons.prems have c: "scan_composite c phy = Inr False" and r: "is_composite_member cs phy = Inr False"
    by (auto split: sum.splits if_splits)
  from Cons.IH[OF r] scan_composite_False[OF c] show ?case
    by (auto simp: declared_member_def)
qed

lemma scan_composite_spec:
  "\<forall>entry \<in> set composite. composite_spec (snd entry) \<Longrightarrow>
     scan_composite composite phy = Inr (\<exists>entry \<in> set composite. PStr phy \<in> set (member_names (snd entry)))"
proof (induction composite)
  case Nil
  then show ?case by simp
next
  case (Cons e es)
  obtain ident settings where e: "e = (ident, settings)" by (cases e)
  from Cons.prems have ok: "composite_spec settings" and rest: "\<forall>entry \<in> set es. composite_spec (snd entry)"
    by (auto simp: e)
  from ok obtain kvs where s: "settings = PDict kvs"
    by (cases settings) (auto simp: composite_spec_def)
  from ok s have "map_of kvs ''interfaces'' = None \<or> (\<exists>names. map_of kvs ''interfaces'' = Some (PList names))"
    by (auto simp: composite_spec_def split: option.splits pyval.splits)
  then show ?case
    using Cons.IH[OF rest]
    by (auto simp: e s member_names_def scan_members_iff)
qed

lemma is_composite_member_spec:
  "\<forall>composite \<in> set composites. \<forall>entry \<in> set composite. composite_spec (snd entry) \<Longrightarrow>
     is_composite_member composites phy = Inr (declared_member composites phy)"
proof (induction composites)
  case Nil
  then show ?case by (simp add: declared_member_def)
next
  case (Cons c cs)
  from Cons.prems have c: "\<forall>entry \<in> set c. composite_spec (snd entry)"
    and r: "\<forall>composite \<in> set cs. \<forall>entry \<in> set composite. composite_spec (snd entry)" by auto
  from scan_composite_spec[OF c, of phy] Cons.IH[OF r] show ?case
    by (auto simp: declared_member_def)
qed

lemma process_link_changes_keys:
  assumes "process_link_changes sys interfaces cm = Inr chs" "k \<in> fst ` set chs"
  shows "k \<in> set interfaces \<and> eligible sys (physical_interfaces cm) [bridges cm, bonds cm] k"
proof -
  from assms(1) obtain m where
    "link_loop sys (physical_interfaces cm) [bridges cm, bonds cm] m [] interfaces = Inr chs"
    by (auto simp: process_link_changes_def Let_def split: sum.splits)
  from link_loop_keys[OF this assms(2)] show ?thesis by simp
qed


section \<open>Restart decisions\<close>

text \<open>
  C1. The restart decision of a backend is false when its artifacts are
  absent both before and after generation, and true in the other three
  cases: present before and absent after, absent before and present after,
  present both before and after.
\<close>

theorem restart_decision_table:
  "restart_decision False False = False \<and>
   restart_decision True False = True \<and>
   restart_decision False True = True \<and>
   restart_decision True True = True"
  by (simp add: restart_decision_def)


section \<open>Safety of the rename plan\<close>

text \<open>
  C3. An interface that is a member of a declared bridge or bond is never in
  the change set returned by \<open>process_link_changes\<close>, whatever the tables
  hold; and on composites in the shape of the data model
  \<open>is_composite_member\<close> returns true exactly when the name appears in some
  composite's member list.
\<close>

theorem composite_members_never_renamed:
  "(declared_member [bridges cm, bonds cm] interface \<longrightarrow>
      process_link_changes sys interfaces cm = Inr chs \<longrightarrow> interface \<notin> fst ` set chs) \<and>
   (composite_specs composites \<longrightarrow>
      is_composite_member composites phy = Inr (declared_member composites phy))"
proof (intro conjI impI)
  assume d: "declared_member [bridges cm, bonds cm] interface"
    and p: "process_link_changes sys interfaces cm = Inr chs"
  show "interface \<notin> fst ` set chs"
  proof
    assume "interface \<in> fst ` set chs"
    from process_link_changes_keys[OF p this]
    have "is_composite_member [bridges cm, bonds cm] interface = Inr False"
      by (simp add: eligible_def)
    from is_composite_member_False[OF this] d show False by simp
  qed
next
  assume "composite_specs composites"
  then show "is_composite_member composites phy = Inr (declared_member composites phy)"
    unfolding composite_specs_def by (rule is_composite_member_spec)
qed

theorem composite_members_never_renamed_witness:
  "declared_member [bridges host_cm, bonds host_cm] ''eth3'' \<and>
   process_link_changes host_sysfs host_interfaces host_cm =
     Inr [(''eth1'', PDict [(''name'', PStr ''lan0'')]), (''eth2'', PDict [(''name'', PStr ''wan0'')])] \<and>
   ''eth3'' \<notin> fst ` set [(''eth1'', PDict [(''name'', PStr ''lan0'')]), (''eth2'', PDict [(''name'', PStr ''wan0'')])] \<and>
   composite_specs [bridges host_cm, bonds host_cm] \<and>
   is_composite_member [bridges host_cm, bonds host_cm] ''eth3'' = Inr True"
proof -
  have d: "declared_member [bridges host_cm, bonds host_cm] ''eth3''" by code_simp
  have p: "process_link_changes host_sysfs host_interfaces host_cm =
     Inr [(''eth1'', PDict [(''name'', PStr ''lan0'')]), (''eth2'', PDict [(''name'', PStr ''wan0'')])]"
    by code_simp
  have w: "composite_specs [bridges host_cm, bonds host_cm]"
    by code_simp
  from composite_members_never_renamed[of host_cm "''eth3''" host_sysfs host_interfaces _ "[bridges host_cm, bonds host_cm]" "''eth3''"]
    d p w show ?thesis by simp
qed

text \<open>
  C4. An interface whose operational state reads as anything other than
  \<open>down\<close> (or cannot be read at all) is never in the change set returned by
  \<open>process_link_changes\<close>.
\<close>

theorem up_interfaces_never_renamed:
  assumes "map_option strip (operstate sys interface) \<noteq> Some ''down''"
    and "process_link_changes sys interfaces cm = Inr chs"
  shows "interface \<notin> fst ` set chs"
proof
  assume "interface \<in> fst ` set chs"
  from process_link_changes_keys[OF assms(2) this] assms(1) show False
    by (simp add: eligible_def)
qed

theorem up_interfaces_never_renamed_witness:
  "map_option strip (operstate host_sysfs ''eth0'') = Some ''up'' \<and>
   process_link_changes host_sysfs host_interfaces host_cm =
     Inr [(''eth1'', PDict [(''name'', PStr ''lan0'')]), (''eth2'', PDict [(''name'', PStr ''wan0'')])] \<and>
   ''eth0'' \<notin> fst ` set [(''eth1'', PDict [(''name'', PStr ''lan0'')]), (''eth2'', PDict [(''name'', PStr ''wan0'')])]"
proof -
  have s: "map_option strip (operstate host_sysfs ''eth0'') = Some ''up''" by code_simp
  have p: "process_link_changes host_sysfs host_interfaces host_cm =
     Inr [(''eth1'', PDict [(''name'', PStr ''lan0'')]), (''eth2'', PDict [(''name'', PStr ''wan0'')])]"
    by code_simp
  have n: "map_option strip (operstate host_sysfs ''eth0'') \<noteq> Some ''down''"
    unfolding s by simp
  from up_interfaces_never_renamed[OF n p] s p show ?thesis by simp
qed

section \<open>Precedence of the hardware address\<close>

lemma record_change_hit:
  "lookup_item t k = Inr (Some v) \<Longrightarrow> v \<noteq> PStr i \<Longrightarrow>
     record_change t k i chs = Inr (AList.update i (PDict [(''name'', v)]) chs)"
  by (simp add: record_change_def)

lemma link_change_both:
  assumes "eligible sys phys comps i"
    and "driver_realpath sys i = Some driver"
    and "by_driver m (PStr (basename driver)) = Some A"
    and "af_link sys i = Inr (link # links)"
    and "py_get link ''addr'' PNone = Inr (PStr macaddress)"
    and "by_mac m (PStr macaddress) = Some B"
    and "A \<noteq> PStr i" "B \<noteq> PStr i"
  shows "link_change sys phys comps m chs i =
           Inr (AList.update i (PDict [(''name'', B)]) (AList.update i (PDict [(''name'', A)]) chs))"
proof -
  from assms(1) obtain content where c: "operstate sys i = Some content" "strip content = ''down''"
    and p: "i \<in> fst ` set phys" and nm: "is_composite_member comps i = Inr False"
    by (auto simp: eligible_def)
  have d: "lookup_item (by_driver m) (PStr (basename driver)) = Inr (Some A)"
    using assms(3) by (simp add: lookup_item_def)
  have a: "lookup_item (by_mac m) (PStr macaddress) = Inr (Some B)"
    using assms(6) by (simp add: lookup_item_def)
  show ?thesis
    unfolding link_change_def
    using p nm c assms(2,4,5) record_change_hit[OF d assms(7)] record_change_hit[OF a assms(8)]
    by simp
qed

lemma link_loop_final:
  assumes "eligible sys phys comps i"
    and "driver_realpath sys i = Some driver"
    and "by_driver m (PStr (basename driver)) = Some A"
    and "af_link sys i = Inr (link # links)"
    and "py_get link ''addr'' PNone = Inr (PStr macaddress)"
    and "by_mac m (PStr macaddress) = Some B"
    and "A \<noteq> PStr i" "B \<noteq> PStr i"
  shows "link_loop sys phys comps m chs is = Inr chs' \<Longrightarrow>
         i \<in> set is \<or> map_of chs i = Some (PDict [(''name'', B)]) \<Longrightarrow>
         map_of chs' i = Some (PDict [(''name'', B)])"
proof (induction "is" arbitrary: chs)
  case Nil
  then show ?case by simp
next
  case (Cons j js)
  from Cons.prems(1) obtain c1 where c1: "link_change sys phys comps m chs j = Inr c1"
    and rest: "link_loop sys phys comps m c1 js = Inr chs'"
    by (auto split: sum.splits)
  show ?case
  proof (cases "j = i")
    case True
    from c1 link_change_both[OF assms, of chs] have "map_of c1 i = Some (PDict [(''name'', B)])"
      by (auto simp: True update_conv')
    with Cons.IH[OF rest] show ?thesis by simp
  next
    case False
    then have "map_of c1 i = map_of chs i" using link_change_other[OF c1] by auto
    with Cons.prems(2) False have "i \<in> set js \<or> map_of c1 i = Some (PDict [(''name'', B)])" by auto
    with Cons.IH[OF rest] show ?thesis by simp
  qed
qed

text \<open>
  C2. The driver of an interface is resolved only once the interface has
  passed the gates of the loop (declared physical, not a composite member,
  operational state \<open>down\<close>). For such a live interface, when its driver name
  maps to \<open>A\<close> in the by-driver table and its hardware address maps to \<open>B\<close>
  in the by-mac table, both different from its current name, the change set
  returned by \<open>process_link_changes\<close> maps the interface to \<open>B\<close>.
\<close>

theorem hardware_address_match_wins:
  assumes "build_matches no_matches (physical_interfaces cm) = Inr m"
    and "interface \<in> set interfaces"
    and "eligible sys (physical_interfaces cm) [bridges cm, bonds cm] interface"
    and "driver_realpath sys interface = Some driver"
    and "by_driver m (PStr (basename driver)) = Some A"
    and "af_link sys interface = Inr (link # links)"
    and "py_get link ''addr'' PNone = Inr (PStr macaddress)"
    and "by_mac m (PStr macaddress) = Some B"
    and "A \<noteq> PStr interface" and "B \<noteq> PStr interface"
    and "process_link_changes sys interfaces cm = Inr chs"
  shows "map_of chs interface = Some (PDict [(''name'', B)])"
proof -
  from assms(1,11) have
    "link_loop sys (physical_interfaces cm) [bridges cm, bonds cm] m [] interfaces = Inr chs"
    by (simp add: process_link_changes_def Let_def)
  from link_loop_final[OF assms(3-10) this] assms(2) show ?thesis by simp
qed

theorem hardware_address_match_wins_witness:
  "eligible torn_sysfs (physical_interfaces torn_cm) [bridges torn_cm, bonds torn_cm] ''eth0'' \<and>
   (\<exists>m. build_matches no_matches (physical_interfaces torn_cm) = Inr m \<and>
        by_driver m (PStr (basename ''/sys/bus/pci/drivers/e1000'')) = Some (PStr ''ethA'') \<and>
        by_mac m (PStr ''aa:bb:cc:dd:ee:ff'') = Some (PStr ''ethB'')) \<and>
   process_link_changes torn_sysfs [''eth0''] torn_cm = Inr [(''eth0'', PDict [(''name'', PStr ''ethB'')])] \<and>
   map_of [(''eth0'', PDict [(''name'', PStr ''ethB'')])] ''eth0'' = Some (PDict [(''name'', PStr ''ethB'')])"
proof -
  let ?m = "\<lparr>by_driver = [PStr ''e1000'' \<mapsto> PStr ''ethA''],
             by_mac = [PStr ''aa:bb:cc:dd:ee:ff'' \<mapsto> PStr ''ethB'']\<rparr>"
  have b: "build_matches no_matches (physical_interfaces torn_cm) = Inr ?m"
    by (simp add: torn_cm_def rule_def match_rule_def no_matches_def set_item_def)
  have bn: "basename ''/sys/bus/pci/drivers/e1000'' = ''e1000''" by code_simp
  have e: "eligible torn_sysfs (physical_interfaces torn_cm) [bridges torn_cm, bonds torn_cm] ''eth0''"
    by code_simp
  have p: "process_link_changes torn_sysfs [''eth0''] torn_cm = Inr [(''eth0'', PDict [(''name'', PStr ''ethB'')])]"
    by code_simp
  have d: "driver_realpath torn_sysfs ''eth0'' = Some ''/sys/bus/pci/drivers/e1000''"
    by (simp add: torn_sysfs_def)
  have a: "af_link torn_sysfs ''eth0'' = Inr [PDict [(''addr'', PStr ''aa:bb:cc:dd:ee:ff'')]]"
    by (simp add: torn_sysfs_def)
  have g: "py_get (PDict [(''addr'', PStr ''aa:bb:cc:dd:ee:ff'')]) ''addr'' PNone = Inr (PStr ''aa:bb:cc:dd:ee:ff'')"
    by simp
  have bd: "by_driver ?m (PStr (basename ''/sys/bus/pci/drivers/e1000'')) = Some (PStr ''ethA'')"
    by (simp add: bn)
  have bm: "by_mac ?m (PStr ''aa:bb:cc:dd:ee:ff'') = Some (PStr ''ethB'')" by simp
  have "map_of [(''eth0'', PDict [(''name'', PStr ''ethB'')])] ''eth0'' = Some (PDict [(''name'', PStr ''ethB'')])"
    using hardware_address_match_wins[OF b _ e d bd a g bm _ _ p] by simp
  with e b bd bm p show ?thesis by blast
qed


section \<open>The match tables\<close>

lemma set_item_delta:
  "set_item t k v = (case set_item Map.empty k v of Inl e \<Rightarrow> Inl e | Inr d \<Rightarrow> Inr (t ++ d))"
  by (auto simp: set_item_def split: sum.splits)

lemma match_rule_delta:
  "match_rule m entry =
     (case match_rule no_matches entry of
        Inl e \<Rightarrow> Inl e
      | Inr d \<Rightarrow> Inr \<lparr>by_driver = by_driver m ++ by_driver d, by_mac = by_mac m ++ by_mac d\<rparr>)"
  unfolding match_rule_def no_matches_def
  by (cases entry) (auto simp: set_item_def split: sum.splits)

lemma match_rule_Inr:
  assumes "match_rule m entry = Inr m'"
  obtains d where "match_rule no_matches entry = Inr d"
    "by_driver m' = by_driver m ++ by_driver d" "by_mac m' = by_mac m ++ by_mac d"
proof (cases "match_rule no_matches entry")
  case (Inl e)
  with assms match_rule_delta[of m entry] show ?thesis by simp
next
  case (Inr d)
  with assms match_rule_delta[of m entry]
  have "m' = \<lparr>by_driver = by_driver m ++ by_driver d, by_mac = by_mac m ++ by_mac d\<rparr>" by simp
  then have "by_driver m' = by_driver m ++ by_driver d" "by_mac m' = by_mac m ++ by_mac d" by simp_all
  with Inr that show ?thesis by blast
qed

lemma build_matches_append:
  "build_matches m (xs @ ys) =
     (case build_matches m xs of Inl e \<Rightarrow> Inl e | Inr m' \<Rightarrow> build_matches m' ys)"
  by (induction xs arbitrary: m) (simp_all split: sum.splits)


lemma build_matches_keep_driver:
  assumes "\<forall>e \<in> set es. \<forall>d. match_rule no_matches e = Inr d \<longrightarrow> by_driver d k = None"
    and "build_matches m es = Inr m'"
  shows "by_driver m' k = by_driver m k"
  using assms
proof (induction es arbitrary: m)
  case Nil
  then show ?case by simp
next
  case (Cons e es)
  from Cons.prems(2) obtain m1 where m1: "match_rule m e = Inr m1" and r: "build_matches m1 es = Inr m'"
    by (cases "match_rule m e") simp_all
  from m1 obtain d where d: "match_rule no_matches e = Inr d" "by_driver m1 = by_driver m ++ by_driver d"
    by (rule match_rule_Inr)
  from Cons.prems(1) d(1) have "by_driver d k = None" by simp
  with d(2) have a: "by_driver m1 k = by_driver m k" by (simp add: map_add_def)
  from Cons.prems(1) have "\<forall>e \<in> set es. \<forall>d. match_rule no_matches e = Inr d \<longrightarrow> by_driver d k = None"
    by simp
  from Cons.IH[OF this r] a show ?case by simp
qed

lemma build_matches_keep_mac:
  assumes "\<forall>e \<in> set es. \<forall>d. match_rule no_matches e = Inr d \<longrightarrow> by_mac d k = None"
    and "build_matches m es = Inr m'"
  shows "by_mac m' k = by_mac m k"
  using assms
proof (induction es arbitrary: m)
  case Nil
  then show ?case by simp
next
  case (Cons e es)
  from Cons.prems(2) obtain m1 where m1: "match_rule m e = Inr m1" and r: "build_matches m1 es = Inr m'"
    by (cases "match_rule m e") simp_all
  from m1 obtain d where d: "match_rule no_matches e = Inr d" "by_mac m1 = by_mac m ++ by_mac d"
    by (rule match_rule_Inr)
  from Cons.prems(1) d(1) have "by_mac d k = None" by simp
  with d(2) have a: "by_mac m1 k = by_mac m k" by (simp add: map_add_def)
  from Cons.prems(1) have "\<forall>e \<in> set es. \<forall>d. match_rule no_matches e = Inr d \<longrightarrow> by_mac d k = None"
    by simp
  from Cons.IH[OF this r] a show ?case by simp
qed

lemma build_matches_total:
  assumes "\<forall>e \<in> set es. \<exists>d. match_rule no_matches e = Inr d"
  shows "\<exists>m'. build_matches m es = Inr m'"
  using assms
proof (induction es arbitrary: m)
  case Nil
  then show ?case by simp
next
  case (Cons e es)
  from Cons.prems obtain d where "match_rule no_matches e = Inr d" by auto
  then obtain m1 where m1: "match_rule m e = Inr m1"
    using match_rule_delta[of m e] by simp
  from Cons.prems have "\<forall>e \<in> set es. \<exists>d. match_rule no_matches e = Inr d" by simp
  from Cons.IH[OF this, of m1] m1 show ?case by simp
qed


lemma build_matches_split:
  assumes "build_matches m (pre @ r # post) = Inr m'"
  obtains m0 m1 where "build_matches m pre = Inr m0" "match_rule m0 r = Inr m1"
    "build_matches m1 post = Inr m'"
proof -
  from assms obtain m0 where m0: "build_matches m pre = Inr m0"
    and r: "build_matches m0 (r # post) = Inr m'"
    unfolding build_matches_append by (cases "build_matches m pre") simp_all
  from r obtain m1 where "match_rule m0 r = Inr m1" "build_matches m1 post = Inr m'"
    by (cases "match_rule m0 r") simp_all
  with m0 that show ?thesis by blast
qed

lemma build_matches_last_driver:
  assumes "build_matches m (pre @ r # post) = Inr m'"
    and "match_rule no_matches r = Inr d"
    and "by_driver d k = Some n"
    and "\<forall>e \<in> set post. \<forall>d. match_rule no_matches e = Inr d \<longrightarrow> by_driver d k = None"
  shows "by_driver m' k = Some n"
proof -
  from assms(1) obtain m0 m1 where m1: "match_rule m0 r = Inr m1" and p: "build_matches m1 post = Inr m'"
    by (rule build_matches_split)
  from m1 obtain d' where "match_rule no_matches r = Inr d'" "by_driver m1 = by_driver m0 ++ by_driver d'"
    by (rule match_rule_Inr)
  with assms(2) have "by_driver m1 = by_driver m0 ++ by_driver d" by simp
  with assms(3) have "by_driver m1 k = Some n" by (simp add: map_add_def)
  with build_matches_keep_driver[OF assms(4) p] show ?thesis by simp
qed

lemma build_matches_last_mac:
  assumes "build_matches m (pre @ r # post) = Inr m'"
    and "match_rule no_matches r = Inr d"
    and "by_mac d k = Some n"
    and "\<forall>e \<in> set post. \<forall>d. match_rule no_matches e = Inr d \<longrightarrow> by_mac d k = None"
  shows "by_mac m' k = Some n"
proof -
  from assms(1) obtain m0 m1 where m1: "match_rule m0 r = Inr m1" and p: "build_matches m1 post = Inr m'"
    by (rule build_matches_split)
  from m1 obtain d' where "match_rule no_matches r = Inr d'" "by_mac m1 = by_mac m0 ++ by_mac d'"
    by (rule match_rule_Inr)
  with assms(2) have "by_mac m1 = by_mac m0 ++ by_mac d" by simp
  with assms(3) have "by_mac m1 k = Some n" by (simp add: map_add_def)
  with build_matches_keep_mac[OF assms(4) p] show ?thesis by simp
qed

text \<open>
  C6. Of two rules that declare the same driver (or the same hardware
  address) with different target names, the later one wins: when no rule
  after the second one binds the key, the by-driver (by-mac) table built from
  the whole list gives the key the second rule's target and not the first's.
  The clash itself is no error: \<open>build_matches\<close> returns tables whenever each
  other entry can be processed on its own.
\<close>

theorem last_writer_wins:
  assumes "match_rule no_matches r1 = Inr d1" and "match_rule no_matches r2 = Inr d2"
    and "n1 \<noteq> n2"
  shows "(by_driver d1 k = Some n1 \<longrightarrow> by_driver d2 k = Some n2 \<longrightarrow>
            (\<forall>e \<in> set post. \<forall>d. match_rule no_matches e = Inr d \<longrightarrow> by_driver d k = None) \<longrightarrow>
            build_matches no_matches (pre @ r1 # mid @ r2 # post) = Inr m \<longrightarrow>
            by_driver m k = Some n2 \<and> by_driver m k \<noteq> Some n1) \<and>
         (by_mac d1 k = Some n1 \<longrightarrow> by_mac d2 k = Some n2 \<longrightarrow>
            (\<forall>e \<in> set post. \<forall>d. match_rule no_matches e = Inr d \<longrightarrow> by_mac d k = None) \<longrightarrow>
            build_matches no_matches (pre @ r1 # mid @ r2 # post) = Inr m \<longrightarrow>
            by_mac m k = Some n2 \<and> by_mac m k \<noteq> Some n1) \<and>
         ((\<forall>e \<in> set (pre @ mid @ post). \<exists>d. match_rule no_matches e = Inr d) \<longrightarrow>
            (\<exists>m'. build_matches no_matches (pre @ r1 # mid @ r2 # post) = Inr m'))"
proof (intro conjI impI)
  assume "by_driver d2 k = Some n2"
    and "\<forall>e \<in> set post. \<forall>d. match_rule no_matches e = Inr d \<longrightarrow> by_driver d k = None"
    and "build_matches no_matches (pre @ r1 # mid @ r2 # post) = Inr m"
  then have "build_matches no_matches ((pre @ r1 # mid) @ r2 # post) = Inr m" by simp
  from build_matches_last_driver[OF this assms(2) \<open>by_driver d2 k = Some n2\<close>
      \<open>\<forall>e \<in> set post. \<forall>d. match_rule no_matches e = Inr d \<longrightarrow> by_driver d k = None\<close>]
  show n2: "by_driver m k = Some n2" .
  with assms(3) show "by_driver m k \<noteq> Some n1" by simp
next
  assume "by_mac d2 k = Some n2"
    and "\<forall>e \<in> set post. \<forall>d. match_rule no_matches e = Inr d \<longrightarrow> by_mac d k = None"
    and "build_matches no_matches (pre @ r1 # mid @ r2 # post) = Inr m"
  then have "build_matches no_matches ((pre @ r1 # mid) @ r2 # post) = Inr m" by simp
  from build_matches_last_mac[OF this assms(2) \<open>by_mac d2 k = Some n2\<close>
      \<open>\<forall>e \<in> set post. \<forall>d. match_rule no_matches e = Inr d \<longrightarrow> by_mac d k = None\<close>]
  show n2: "by_mac m k = Some n2" .
  with assms(3) show "by_mac m k \<noteq> Some n1" by simp
next
  assume a: "\<forall>e \<in> set (pre @ mid @ post). \<exists>d. match_rule no_matches e = Inr d"
  have "\<forall>e \<in> set (pre @ r1 # mid @ r2 # post). \<exists>d. match_rule no_matches e = Inr d"
  proof
    fix e assume "e \<in> set (pre @ r1 # mid @ r2 # post)"
    then have "e = r1 \<or> e = r2 \<or> e \<in> set (pre @ mid @ post)" by auto
    with a assms(1,2) show "\<exists>d. match_rule no_matches e = Inr d" by blast
  qed
  then show "\<exists>m'. build_matches no_matches (pre @ r1 # mid @ r2 # post) = Inr m'"
    by (rule build_matches_total)
qed

theorem last_writer_wins_witness:
  "\<exists>m. build_matches no_matches
          [(''eth1'', rule ''lan0'' [(''driver'', PStr ''e1000''), (''macaddress'', PStr ''aa:bb:cc:dd:ee:ff'')]),
           (''eth5'', rule ''lan1'' [(''driver'', PStr ''e1000''), (''macaddress'', PStr ''aa:bb:cc:dd:ee:ff'')])]
        = Inr m \<and>
       by_driver m (PStr ''e1000'') = Some (PStr ''lan1'') \<and>
       by_mac m (PStr ''aa:bb:cc:dd:ee:ff'') = Some (PStr ''lan1'')"
proof -
  let ?r1 = "(''eth1'', rule ''lan0'' [(''driver'', PStr ''e1000''), (''macaddress'', PStr ''aa:bb:cc:dd:ee:ff'')])"
  let ?r2 = "(''eth5'', rule ''lan1'' [(''driver'', PStr ''e1000''), (''macaddress'', PStr ''aa:bb:cc:dd:ee:ff'')])"
  let ?d1 = "\<lparr>by_driver = [PStr ''e1000'' \<mapsto> PStr ''lan0''], by_mac = [PStr ''aa:bb:cc:dd:ee:ff'' \<mapsto> PStr ''lan0'']\<rparr>"
  let ?d2 = "\<lparr>by_driver = [PStr ''e1000'' \<mapsto> PStr ''lan1''], by_mac = [PStr ''aa:bb:cc:dd:ee:ff'' \<mapsto> PStr ''lan1'']\<rparr>"
  have r1: "match_rule no_matches ?r1 = Inr ?d1"
    by (simp add: rule_def match_rule_def no_matches_def set_item_def)
  have r2: "match_rule no_matches ?r2 = Inr ?d2"
    by (simp add: rule_def match_rule_def no_matches_def set_item_def)
  have ne: "PStr ''lan0'' \<noteq> PStr ''lan1''" by simp
  note w = last_writer_wins[OF r1 r2 ne, where pre = "[]" and mid = "[]" and post = "[]"]
  from w[of "PStr ''e1000''"] obtain m where m: "build_matches no_matches [?r1, ?r2] = Inr m"
    by auto
  from w[of "PStr ''e1000''" m] m have a: "by_driver m (PStr ''e1000'') = Some (PStr ''lan1'')"
    by simp
  from w[of "PStr ''aa:bb:cc:dd:ee:ff''" m] m have b: "by_mac m (PStr ''aa:bb:cc:dd:ee:ff'') = Some (PStr ''lan1'')"
    by simp
  from m a b show ?thesis by blast
qed

lemma inert_match_rule:
  assumes "inert entry"
  shows "match_rule m entry = Inr m"
proof -
  obtain phy settings where e: "entry = (phy, settings)" by (cases entry)
  show ?thesis
  proof (cases "phy = ''renderer'' \<or> \<not> truthy settings")
    case True
    then show ?thesis unfolding e match_rule_def by auto
  next
    case False
    with assms obtain kvs where s: "settings = PDict kvs"
      and c: "(case map_of kvs ''set-name'' of None \<Rightarrow> True | Some newname \<Rightarrow> \<not> truthy newname) \<or>
              (case map_of kvs ''match'' of None \<Rightarrow> True | Some mtch \<Rightarrow> \<not> truthy mtch)"
      unfolding e inert_def by (cases settings) auto
    from c show ?thesis unfolding e s match_rule_def
      by (auto split: option.splits)
  qed
qed

lemma build_matches_drop_inert:
  assumes "inert entry"
  shows "build_matches m (pre @ entry # post) = build_matches m (pre @ post)"
  unfolding build_matches_append
  by (cases "build_matches m pre") (simp_all add: inert_match_rule[OF assms])

lemma build_matches_all_inert:
  "list_all inert es \<Longrightarrow> build_matches m es = Inr m"
  by (induction es) (simp_all add: inert_match_rule)

lemma record_change_empty:
  "record_change Map.empty k i chs = Inr chs' \<Longrightarrow> chs' = chs"
  by (cases "py_key k") (simp_all add: record_change_def lookup_item_def)

lemma link_change_empty:
  assumes "link_change sys phys comps no_matches chs i = Inr chs'"
  shows "chs' = chs"
  using link_change_Inr[OF assms]
proof
  assume "chs' = chs" then show ?thesis .
next
  assume "eligible sys phys comps i \<and>
          (\<exists>dn mac c1. record_change (by_driver no_matches) dn i chs = Inr c1 \<and>
                        record_change (by_mac no_matches) mac i c1 = Inr chs')"
  then obtain dn mac c1 where a: "record_change Map.empty dn i chs = Inr c1"
    and b: "record_change Map.empty mac i c1 = Inr chs'"
    by (auto simp: no_matches_def)
  from record_change_empty[OF a] record_change_empty[OF b] show ?thesis by simp
qed

lemma link_loop_empty:
  "link_loop sys phys comps no_matches chs is = Inr chs' \<Longrightarrow> chs' = chs"
proof (induction "is" arbitrary: chs)
  case Nil
  then show ?case by simp
next
  case (Cons i "is")
  from Cons.prems obtain c1 where c1: "link_change sys phys comps no_matches chs i = Inr c1"
    and r: "link_loop sys phys comps no_matches c1 is = Inr chs'"
    by (cases "link_change sys phys comps no_matches chs i") simp_all
  from link_change_empty[OF c1] Cons.IH[OF r] show ?case by simp
qed

text \<open>
  C9. An entry under the \<open>renderer\<close> key, an entry with an empty settings
  block, an entry without a target name and an entry without a match block
  are skipped without error: the round leaves the tables as they were, the
  tables built from a list are those built from the list without the entry,
  and when every declared entry is of this kind the tables stay empty and the
  planner records no rename.
\<close>

theorem inert_rules_are_skipped:
  "(inert entry \<longrightarrow>
      match_rule m entry = Inr m \<and>
      build_matches m (pre @ entry # post) = build_matches m (pre @ post)) \<and>
   (list_all inert (physical_interfaces cm) \<longrightarrow>
      build_matches no_matches (physical_interfaces cm) = Inr no_matches \<and>
      (\<forall>chs. process_link_changes sys interfaces cm = Inr chs \<longrightarrow> chs = []))"
proof (intro conjI impI allI)
  assume "inert entry"
  then show "match_rule m entry = Inr m" by (rule inert_match_rule)
next
  assume "inert entry"
  then show "build_matches m (pre @ entry # post) = build_matches m (pre @ post)"
    by (rule build_matches_drop_inert)
next
  assume "list_all inert (physical_interfaces cm)"
  then show "build_matches no_matches (physical_interfaces cm) = Inr no_matches"
    by (rule build_matches_all_inert)
next
  fix chs
  assume a: "list_all inert (physical_interfaces cm)"
    and p: "process_link_changes sys interfaces cm = Inr chs"
  from p build_matches_all_inert[OF a, of no_matches]
  have "link_loop sys (physical_interfaces cm) [bridges cm, bonds cm] no_matches [] interfaces = Inr chs"
    by (simp add: process_link_changes_def Let_def)
  then show "chs = []" by (rule link_loop_empty)
qed

theorem inert_rules_are_skipped_witness:
  "inert (''renderer'', PStr ''networkd'') \<and>
   match_rule no_matches (''renderer'', PStr ''networkd'') = Inr no_matches \<and>
   build_matches no_matches ([(''eth3'', PDict [])] @ (''renderer'', PStr ''networkd'') # []) =
     build_matches no_matches ([(''eth3'', PDict [])] @ []) \<and>
   list_all inert (physical_interfaces idle_cm) \<and>
   build_matches no_matches (physical_interfaces idle_cm) = Inr no_matches \<and>
   process_link_changes host_sysfs host_interfaces idle_cm = Inr []"
proof -
  have i: "inert (''renderer'', PStr ''networkd'')" by code_simp
  have a: "list_all inert (physical_interfaces idle_cm)" by code_simp
  have p: "process_link_changes host_sysfs host_interfaces idle_cm = Inr []" by code_simp
  from inert_rules_are_skipped[of "(''renderer'', PStr ''networkd'')" no_matches "[(''eth3'', PDict [])]" "[]"
      idle_cm host_sysfs host_interfaces] i a p
  show ?thesis by simp
qed

section \<open>The course of a pass\<close>

lemma andthen_Returned: "snd a = Returned \<Longrightarrow> andthen a b = (fst a @ fst b, snd b)"
  by (simp add: andthen_def)

lemma andthen_stopped: "snd a \<noteq> Returned \<Longrightarrow> andthen a b = a"
  by (cases "snd a") (simp_all add: andthen_def)

lemma snd_andthen_Returned:
  "snd (andthen a b) = Returned \<longleftrightarrow> snd a = Returned \<and> snd b = Returned"
  by (cases "snd a") (simp_all add: andthen_def)

lemma fst_andthen_Returned:
  "snd (andthen a b) = Returned \<Longrightarrow> fst (andthen a b) = fst a @ fst b"
  by (cases "snd a") (simp_all add: andthen_def)

lemma set_andthen: "ev \<in> set (fst (andthen a b)) \<Longrightarrow> ev \<in> set (fst a) \<or> ev \<in> set (fst b)"
  by (cases "snd a") (auto simp: andthen_def)

lemma andthen_prefix: "\<exists>rest. fst (andthen a b) = fst a @ rest"
  by (cases "snd a") (simp_all add: andthen_def)

lemma andthen_not_Exited:
  "snd a \<noteq> Exited c \<Longrightarrow> snd b \<noteq> Exited c \<Longrightarrow> snd (andthen a b) \<noteq> Exited c"
  by (cases "snd a") (simp_all add: andthen_def)

lemma call_not_Exited: "snd (call s ev) \<noteq> Exited c"
  by (simp add: call_def)

lemma log_debug_simps: "fst (log_debug fmt args) = [Log fmt args]" "snd (log_debug fmt args) = Returned"
  by (simp_all add: log_debug_def)

lemma disconnect_devices_Returned: "snd (disconnect_devices ds) = Returned"
  by (induction ds) (simp_all add: snd_andthen_Returned)

lemma disconnect_devices_events:
  "fst (disconnect_devices ds) = map (\<lambda>device. Nmcli [''device'', ''disconnect'', device]) ds"
  by (induction ds) (simp_all add: andthen_Returned disconnect_devices_Returned)

lemma trigger_link_rules_not_Exited: "snd (trigger_link_rules s ds) \<noteq> Exited c"
  by (induction ds) (simp_all add: andthen_not_Exited call_not_Exited log_debug_simps)

lemma apply_renames_not_Exited: "snd (apply_renames s chs) \<noteq> Exited c"
proof (induction s chs rule: apply_renames.induct)
  case (1 s)
  then show ?case by simp
next
  case (2 s iface settings rest)
  show ?case
  proof (cases "py_get settings ''name'' PNone")
    case (Inl e)
    then show ?thesis by simp
  next
    case (Inr new_name)
    show ?thesis
    proof (cases "truthy new_name")
      case True
      have "snd (case new_name of
                   PStr n \<Rightarrow> call s (Check_call [''ip'', ''link'', ''set'', ''dev'', iface, ''name'', n])
                 | _ \<Rightarrow> ([], Raised TypeError)) \<noteq> Exited c"
        by (cases new_name) (simp_all add: call_not_Exited)
      with "2.IH"(1)[OF Inr True] Inr True show ?thesis
        by (simp add: andthen_not_Exited log_debug_simps)
    next
      case False
      with "2.IH"(2)[OF Inr False] Inr show ?thesis by simp
    qed
  qed
qed

lemma stop_networkd_not_Exited: "snd (stop_networkd s sync r) \<noteq> Exited c"
  by (simp add: stop_networkd_def andthen_not_Exited call_not_Exited log_debug_simps)

lemma stop_nm_not_Exited: "snd (stop_nm s sync r ds) \<noteq> Exited c"
  by (simp add: stop_nm_def andthen_not_Exited call_not_Exited log_debug_simps disconnect_devices_Returned)

lemma start_backends_not_Exited: "snd (start_backends s sync rn rm) \<noteq> Exited c"
  by (simp add: start_backends_def Let_def andthen_not_Exited call_not_Exited log_debug_simps)

lemma rename_and_start_not_Exited: "snd (rename_and_start s sync rn rm ds) \<noteq> Exited c"
proof (cases "parsed s")
  case (Inl e)
  then show ?thesis by (simp add: rename_and_start_def)
next
  case (Inr cm)
  show ?thesis
  proof (cases "process_link_changes (sysfs_of s) ds cm")
    case (Inl e)
    with Inr show ?thesis by (simp add: rename_and_start_def)
  next
    case (Inr chs)
    with \<open>parsed s = Inr cm\<close> show ?thesis
      by (simp add: rename_and_start_def andthen_not_Exited call_not_Exited
          trigger_link_rules_not_Exited apply_renames_not_Exited start_backends_not_Exited)
  qed
qed

lemma stop_networkd_first:
  "\<exists>rest. fst (stop_networkd s sync r) =
     Log (if r then ''networkd configuration changed, stopping networkd''
          else ''no networkd configuration generated: not restarting networkd'') [] # rest"
  by (simp add: stop_networkd_def andthen_Returned log_debug_simps)

text \<open>
  C7. When the generator is run and exits non-zero, the pass ends right
  there: with exit code \<open>EX_CONFIG\<close> if \<open>exit_on_error\<close> is set, and with a
  raised \<open>ConfigurationError\<close> otherwise. When generation is skipped or the
  generator exits zero, the pass goes on to the stop phase (its first log
  line follows in the trace) and the process is not terminated.
\<close>

theorem generation_failure:
  "(run_generate \<and> generator_status s \<noteq> 0 \<longrightarrow>
      command_apply s run_generate sync exit_on_error =
        ([Generate],
         if exit_on_error then Exited EX_CONFIG
         else Raised (ConfigurationError ''the configuration could not be generated''))) \<and>
   (\<not> (run_generate \<and> generator_status s \<noteq> 0) \<longrightarrow>
      (\<exists>rest. fst (command_apply s run_generate sync exit_on_error) =
         (if run_generate then [Generate] else []) @
         Log (if restart_decision (networkd_files_before s \<noteq> []) (networkd_files_after s \<noteq> [])
              then ''networkd configuration changed, stopping networkd''
              else ''no networkd configuration generated: not restarting networkd'') [] # rest) \<and>
      (\<forall>code. snd (command_apply s run_generate sync exit_on_error) \<noteq> Exited code))"
proof (intro conjI impI allI)
  assume "run_generate \<and> generator_status s \<noteq> 0"
  then show "command_apply s run_generate sync exit_on_error =
        ([Generate],
         if exit_on_error then Exited EX_CONFIG
         else Raised (ConfigurationError ''the configuration could not be generated''))"
    by (simp add: command_apply_def generate_def andthen_def)
next
  assume a: "\<not> (run_generate \<and> generator_status s \<noteq> 0)"
  then have g: "generate s run_generate exit_on_error = (if run_generate then [Generate] else [], Returned)"
    by (auto simp: generate_def)
  let ?rn = "restart_decision (networkd_files_before s \<noteq> []) (networkd_files_after s \<noteq> [])"
  let ?rm = "restart_decision (nm_files_before s \<noteq> []) (nm_files_after s \<noteq> [])"
  let ?tail = "andthen (stop_nm s sync ?rm (live_interfaces s))
                 (rename_and_start s sync ?rn ?rm (live_interfaces s))"
  have c: "command_apply s run_generate sync exit_on_error =
             ((if run_generate then [Generate] else []) @ fst (andthen (stop_networkd s sync ?rn) ?tail),
              snd (andthen (stop_networkd s sync ?rn) ?tail))"
    by (simp add: command_apply_def Let_def g andthen_Returned)
  from andthen_prefix[of "stop_networkd s sync ?rn" ?tail] stop_networkd_first[of s sync ?rn]
  obtain rest where "fst (andthen (stop_networkd s sync ?rn) ?tail) =
     Log (if ?rn then ''networkd configuration changed, stopping networkd''
          else ''no networkd configuration generated: not restarting networkd'') [] # rest"
    by auto
  with c show "\<exists>rest. fst (command_apply s run_generate sync exit_on_error) =
         (if run_generate then [Generate] else []) @
         Log (if ?rn then ''networkd configuration changed, stopping networkd''
              else ''no networkd configuration generated: not restarting networkd'') [] # rest"
    by simp
  fix code
  have "snd (andthen (stop_networkd s sync ?rn) ?tail) \<noteq> Exited code"
    by (intro andthen_not_Exited stop_networkd_not_Exited stop_nm_not_Exited rename_and_start_not_Exited)
  with c show "snd (command_apply s run_generate sync exit_on_error) \<noteq> Exited code" by simp
qed

theorem generation_failure_witness:
  "command_apply (host\<lparr>generator_status := 1\<rparr>) True False True = ([Generate], Exited 78) \<and>
   command_apply (host\<lparr>generator_status := 1\<rparr>) True False False =
     ([Generate], Raised (ConfigurationError ''the configuration could not be generated'')) \<and>
   (\<exists>rest. fst (command_apply host True False True) =
      [Generate] @ Log ''networkd configuration changed, stopping networkd'' [] # rest) \<and>
   (\<exists>rest. fst (command_apply (host\<lparr>generator_status := 1\<rparr>) False False True) =
      [] @ Log ''networkd configuration changed, stopping networkd'' [] # rest)"
proof -
  have g0: "generator_status host = 0" by (simp add: host_def)
  have g1: "generator_status (host\<lparr>generator_status := 1\<rparr>) \<noteq> 0" by simp
  have d: "restart_decision (networkd_files_before host \<noteq> []) (networkd_files_after host \<noteq> [])"
    by (simp add: host_def restart_decision_def)
  have d1: "restart_decision (networkd_files_before (host\<lparr>generator_status := 1\<rparr>) \<noteq> [])
              (networkd_files_after (host\<lparr>generator_status := 1\<rparr>) \<noteq> [])"
    by (simp add: host_def restart_decision_def)
  from generation_failure[of True "host\<lparr>generator_status := 1\<rparr>" False True] g1
  have a: "command_apply (host\<lparr>generator_status := 1\<rparr>) True False True = ([Generate], Exited 78)"
    by (simp add: EX_CONFIG_def)
  from generation_failure[of True "host\<lparr>generator_status := 1\<rparr>" False False] g1
  have b: "command_apply (host\<lparr>generator_status := 1\<rparr>) True False False =
     ([Generate], Raised (ConfigurationError ''the configuration could not be generated''))"
    by simp
  from generation_failure[of True host False True] g0 d
  have c: "\<exists>rest. fst (command_apply host True False True) =
      [Generate] @ Log ''networkd configuration changed, stopping networkd'' [] # rest"
    by simp
  from generation_failure[of False "host\<lparr>generator_status := 1\<rparr>" False True] d1
  have e: "\<exists>rest. fst (command_apply (host\<lparr>generator_status := 1\<rparr>) False False True) =
      [] @ Log ''networkd configuration changed, stopping networkd'' [] # rest"
    by simp
  from a b c e show ?thesis by simp
qed

lemma quiet_andthen: "quiet a \<Longrightarrow> quiet b \<Longrightarrow> quiet (andthen a b)"
  unfolding quiet_def using set_andthen by blast

lemma quiet_log: "quiet (log_debug fmt args)"
  by (simp add: quiet_def log_debug_def nm_stopping_def)

lemma quiet_call: "\<not> nm_stopping ev \<Longrightarrow> quiet (call s ev)"
  by (simp add: quiet_def call_def)

lemma quiet_nil: "quiet ([], out)"
  by (simp add: quiet_def)

lemma quiet_generate: "quiet (generate s rg eoe)"
  by (simp add: quiet_def generate_def nm_stopping_def)

lemma quiet_stop_networkd: "quiet (stop_networkd s sync r)"
  by (simp add: stop_networkd_def quiet_andthen quiet_log quiet_call nm_stopping_def)

lemma quiet_stop_nm: "\<not> nm_running s \<Longrightarrow> quiet (stop_nm s sync r ds)"
  by (simp add: stop_nm_def quiet_andthen quiet_log quiet_nil)

lemma quiet_trigger_link_rules: "quiet (trigger_link_rules s ds)"
  by (induction ds) (simp_all add: quiet_andthen quiet_log quiet_call quiet_nil nm_stopping_def)

lemma quiet_apply_renames: "quiet (apply_renames s chs)"
proof (induction s chs rule: apply_renames.induct)
  case (1 s)
  then show ?case by (simp add: quiet_nil)
next
  case (2 s iface settings rest)
  show ?case
  proof (cases "py_get settings ''name'' PNone")
    case (Inl e)
    then show ?thesis by (simp add: quiet_nil)
  next
    case (Inr new_name)
    show ?thesis
    proof (cases "truthy new_name")
      case True
      have "quiet (case new_name of
                   PStr n \<Rightarrow> call s (Check_call [''ip'', ''link'', ''set'', ''dev'', iface, ''name'', n])
                 | _ \<Rightarrow> ([], Raised TypeError))"
        by (cases new_name) (simp_all add: quiet_call quiet_nil nm_stopping_def)
      with "2.IH"(1)[OF Inr True] Inr True show ?thesis
        by (simp add: quiet_andthen quiet_log)
    next
      case False
      with "2.IH"(2)[OF Inr False] Inr show ?thesis by simp
    qed
  qed
qed

lemma quiet_start_backends: "quiet (start_backends s sync rn rm)"
  by (simp add: start_backends_def Let_def quiet_andthen quiet_log quiet_call quiet_nil nm_stopping_def)

lemma quiet_rename_and_start: "quiet (rename_and_start s sync rn rm ds)"
proof (cases "parsed s")
  case (Inl e)
  then show ?thesis by (simp add: rename_and_start_def quiet_nil)
next
  case (Inr cm)
  show ?thesis
  proof (cases "process_link_changes (sysfs_of s) ds cm")
    case (Inl e)
    with Inr show ?thesis by (simp add: rename_and_start_def quiet_nil)
  next
    case (Inr chs)
    with \<open>parsed s = Inr cm\<close> show ?thesis
      by (simp add: rename_and_start_def quiet_andthen quiet_call quiet_trigger_link_rules
          quiet_apply_renames quiet_start_backends nm_stopping_def)
  qed
qed

lemma quiet_command_apply: "\<not> nm_running s \<Longrightarrow> quiet (command_apply s rg sync eoe)"
  by (simp add: command_apply_def Let_def quiet_andthen quiet_generate quiet_stop_networkd
      quiet_stop_nm quiet_rename_and_start)

lemma in_andthen_left:
  "snd (andthen a b) = Returned \<Longrightarrow> ev \<in> set (fst a) \<Longrightarrow> ev \<in> set (fst (andthen a b))"
  by (simp add: fst_andthen_Returned)

lemma in_andthen_right:
  "snd (andthen a b) = Returned \<Longrightarrow> ev \<in> set (fst b) \<Longrightarrow> ev \<in> set (fst (andthen a b))"
  by (simp add: fst_andthen_Returned)

lemma start_backends_starts_nm:
  assumes "snd (start_backends s sync rn True) = Returned"
  shows "Systemctl_network_manager ''start'' sync \<in> set (fst (start_backends s sync rn True))"
proof -
  let ?b = "andthen (log_debug ''re-starting NetworkManager'' [])
                    (call s (Systemctl_network_manager ''start'' sync))"
  from assms have r: "snd ?b = Returned"
    unfolding start_backends_def by (simp add: snd_andthen_Returned)
  have "Systemctl_network_manager ''start'' sync \<in> set (fst (call s (Systemctl_network_manager ''start'' sync)))"
    by (simp add: call_def)
  from in_andthen_right[OF r this] have "Systemctl_network_manager ''start'' sync \<in> set (fst ?b)" .
  with assms show ?thesis
    unfolding start_backends_def by (intro in_andthen_right) simp_all
qed

lemma rename_and_start_starts_nm:
  assumes "snd (rename_and_start s sync rn True ds) = Returned"
  shows "Systemctl_network_manager ''start'' sync \<in> set (fst (rename_and_start s sync rn True ds))"
proof -
  from assms obtain cm where cm: "parsed s = Inr cm"
    by (cases "parsed s") (simp_all add: rename_and_start_def)
  from assms cm obtain chs where chs: "process_link_changes (sysfs_of s) ds cm = Inr chs"
    by (cases "process_link_changes (sysfs_of s) ds cm") (simp_all add: rename_and_start_def)
  let ?c = "andthen (call s (Check_call [''udevadm'', ''settle''])) (start_backends s sync rn True)"
  let ?b = "andthen (apply_renames s chs) ?c"
  let ?a = "andthen (trigger_link_rules s ds) ?b"
  have eq: "rename_and_start s sync rn True ds = ?a"
    by (simp add: rename_and_start_def cm chs)
  from assms have ra: "snd ?a = Returned" by (simp add: eq)
  then have rb: "snd ?b = Returned" by (simp add: snd_andthen_Returned)
  then have rc: "snd ?c = Returned" by (simp add: snd_andthen_Returned)
  then have rs: "snd (start_backends s sync rn True) = Returned" by (simp add: snd_andthen_Returned)
  from in_andthen_right[OF rc start_backends_starts_nm[OF rs]]
  have "Systemctl_network_manager ''start'' sync \<in> set (fst ?c)" .
  from in_andthen_right[OF rb this] have "Systemctl_network_manager ''start'' sync \<in> set (fst ?b)" .
  from in_andthen_right[OF ra this] show ?thesis by (simp add: eq)
qed

lemma stop_nm_events:
  assumes "nm_running s" and "snd (stop_nm s sync True ds) = Returned"
  shows "fst (stop_nm s sync True ds) =
           Log ''NetworkManager configuration changed, stopping NetworkManager'' [] #
           map (\<lambda>device. Nmcli [''device'', ''disconnect'', device]) ds @
           [Systemctl_network_manager ''stop'' sync]"
  using assms
  by (simp add: stop_nm_def andthen_Returned log_debug_simps disconnect_devices_Returned
      disconnect_devices_events call_def)

text \<open>
  C10. Whatever the restart decision for the NetworkManager-style backend,
  no device is disconnected from it and it is not stopped unless the daemon
  is running. When the decision is true, a pass that returns has started the
  backend, and has disconnected every live device and stopped the backend if
  the daemon was running.
\<close>

theorem nm_stopped_only_when_running:
  "(\<not> nm_running s \<longrightarrow>
      (\<forall>ev \<in> set (fst (command_apply s run_generate sync exit_on_error)). \<not> nm_stopping ev)) \<and>
   (restart_decision (nm_files_before s \<noteq> []) (nm_files_after s \<noteq> []) \<longrightarrow>
    snd (command_apply s run_generate sync exit_on_error) = Returned \<longrightarrow>
      Systemctl_network_manager ''start'' sync \<in> set (fst (command_apply s run_generate sync exit_on_error)) \<and>
      (nm_running s \<longrightarrow>
         (\<forall>device \<in> set (live_interfaces s).
            Nmcli [''device'', ''disconnect'', device] \<in> set (fst (command_apply s run_generate sync exit_on_error))) \<and>
         Systemctl_network_manager ''stop'' sync \<in> set (fst (command_apply s run_generate sync exit_on_error))))"
proof (intro conjI impI)
  assume "\<not> nm_running s"
  then have "quiet (command_apply s run_generate sync exit_on_error)"
    by (rule quiet_command_apply)
  then show "\<forall>ev \<in> set (fst (command_apply s run_generate sync exit_on_error)). \<not> nm_stopping ev"
    by (simp add: quiet_def)
next
  let ?rn = "restart_decision (networkd_files_before s \<noteq> []) (networkd_files_after s \<noteq> [])"
  let ?ds = "live_interfaces s"
  let ?c = "andthen (stop_nm s sync True ?ds) (rename_and_start s sync ?rn True ?ds)"
  let ?b = "andthen (stop_networkd s sync ?rn) ?c"
  let ?a = "andthen (generate s run_generate exit_on_error) ?b"
  assume rm: "restart_decision (nm_files_before s \<noteq> []) (nm_files_after s \<noteq> [])"
    and ret: "snd (command_apply s run_generate sync exit_on_error) = Returned"
  from rm have eq: "command_apply s run_generate sync exit_on_error = ?a"
    by (simp add: command_apply_def Let_def)
  from ret have ra: "snd ?a = Returned" by (simp add: eq)
  then have rb: "snd ?b = Returned" by (simp add: snd_andthen_Returned)
  then have rc: "snd ?c = Returned" by (simp add: snd_andthen_Returned)
  then have rs: "snd (rename_and_start s sync ?rn True ?ds) = Returned"
    and rp: "snd (stop_nm s sync True ?ds) = Returned"
    by (simp_all add: snd_andthen_Returned)
  have up: "ev \<in> set (fst ?c) \<Longrightarrow> ev \<in> set (fst ?a)" for ev
    using in_andthen_right[OF ra, of ev] in_andthen_right[OF rb, of ev] by blast
  from in_andthen_right[OF rc rename_and_start_starts_nm[OF rs]]
  have "Systemctl_network_manager ''start'' sync \<in> set (fst ?c)" .
  then show "Systemctl_network_manager ''start'' sync \<in> set (fst (command_apply s run_generate sync exit_on_error))"
    unfolding eq by (rule up)
  assume run: "nm_running s"
  note ev = stop_nm_events[OF run rp]
  show "\<forall>device \<in> set (live_interfaces s).
            Nmcli [''device'', ''disconnect'', device] \<in> set (fst (command_apply s run_generate sync exit_on_error))"
  proof
    fix device assume "device \<in> set (live_interfaces s)"
    then have "Nmcli [''device'', ''disconnect'', device] \<in> set (fst (stop_nm s sync True ?ds))"
      unfolding ev by simp
    from in_andthen_left[OF rc this]
    show "Nmcli [''device'', ''disconnect'', device] \<in> set (fst (command_apply s run_generate sync exit_on_error))"
      unfolding eq by (rule up)
  qed
  have "Systemctl_network_manager ''stop'' sync \<in> set (fst (stop_nm s sync True ?ds))"
    unfolding ev by simp
  from in_andthen_left[OF rc this]
  show "Systemctl_network_manager ''stop'' sync \<in> set (fst (command_apply s run_generate sync exit_on_error))"
    unfolding eq by (rule up)
qed

theorem nm_stopped_only_when_running_witness:
  "\<not> nm_running host \<and>
   quiet (command_apply host True False True) \<and>
   restart_decision (nm_files_before host \<noteq> []) (nm_files_after host \<noteq> []) \<and>
   snd (command_apply host True False True) = Returned \<and>
   Systemctl_network_manager ''start'' False \<in> set (fst (command_apply host True False True)) \<and>
   nm_running (host\<lparr>nm_running := True\<rparr>) \<and>
   snd (command_apply (host\<lparr>nm_running := True\<rparr>) True False True) = Returned \<and>
   Nmcli [''device'', ''disconnect'', ''eth0''] \<in> set (fst (command_apply (host\<lparr>nm_running := True\<rparr>) True False True)) \<and>
   Systemctl_network_manager ''stop'' False \<in> set (fst (command_apply (host\<lparr>nm_running := True\<rparr>) True False True))"
proof -
  have n: "\<not> nm_running host" by (simp add: host_def)
  have d: "restart_decision (nm_files_before host \<noteq> []) (nm_files_after host \<noteq> [])"
    by (simp add: host_def restart_decision_def)
  have r: "snd (command_apply host True False True) = Returned" by code_simp
  have d': "restart_decision (nm_files_before (host\<lparr>nm_running := True\<rparr>) \<noteq> [])
              (nm_files_after (host\<lparr>nm_running := True\<rparr>) \<noteq> [])"
    by (simp add: host_def restart_decision_def)
  have r': "snd (command_apply (host\<lparr>nm_running := True\<rparr>) True False True) = Returned" by code_simp
  have e: "''eth0'' \<in> set (live_interfaces (host\<lparr>nm_running := True\<rparr>))"
    by (simp add: host_def host_interfaces_def)
  from nm_stopped_only_when_running[of host True False True] n d r
  have a: "quiet (command_apply host True False True) \<and>
           Systemctl_network_manager ''start'' False \<in> set (fst (command_apply host True False True))"
    by (simp add: quiet_def)
  from nm_stopped_only_when_running[of "host\<lparr>nm_running := True\<rparr>" True False True] d' r' e
  have b: "Nmcli [''device'', ''disconnect'', ''eth0''] \<in> set (fst (command_apply (host\<lparr>nm_running := True\<rparr>) True False True)) \<and>
           Systemctl_network_manager ''stop'' False \<in> set (fst (command_apply (host\<lparr>nm_running := True\<rparr>) True False True))"
    by simp
  from n d r r' a b show ?thesis by simp
qed

lemma andthen_assoc: "andthen (andthen a b) c = andthen a (andthen b c)"
  by (cases "snd a"; cases "snd b") (simp_all add: andthen_def)

lemma andthen_raised: "andthen (tr, Raised e) b = (tr, Raised e)"
  by (simp add: andthen_def)

lemma andthen_nil: "andthen ([], Returned) b = b"
  by (simp add: andthen_def)

lemma apply_renames_append:
  "apply_renames s (pre @ post) = andthen (apply_renames s pre) (apply_renames s post)"
proof (induction s pre rule: apply_renames.induct)
  case (1 s)
  then show ?case by (simp add: andthen_nil)
next
  case (2 s iface settings rest)
  show ?case
  proof (cases "py_get settings ''name'' PNone")
    case (Inl e)
    then show ?thesis by (simp add: andthen_raised)
  next
    case (Inr new_name)
    show ?thesis
    proof (cases "truthy new_name")
      case True
      with "2.IH"(1)[OF Inr True] Inr show ?thesis by (simp add: andthen_assoc)
    next
      case False
      with "2.IH"(2)[OF Inr False] Inr show ?thesis by simp
    qed
  qed
qed

lemma apply_renames_failing:
  assumes "new_name \<noteq> []"
    and "fails s (Check_call [''ip'', ''link'', ''set'', ''dev'', iface, ''name'', new_name])"
  shows "apply_renames s ((iface, PDict [(''name'', PStr new_name)]) # post) =
           ([Log ''applying name change for %s: now called %s'' [PStr iface, PStr new_name],
             Check_call [''ip'', ''link'', ''set'', ''dev'', iface, ''name'', new_name]],
            Raised CalledProcessError)"
  using assms by (simp add: andthen_def log_debug_def call_def)

text \<open>
  C8, as stated: a failing rename is logged, the remaining entries of the
  change set are still applied and the pass proceeds to the settle phase. On
  the host where renaming \<open>eth1\<close> fails, the pass ends with
  \<open>CalledProcessError\<close> at that call: the planned rename of \<open>eth2\<close> is never
  attempted and \<open>udevadm settle\<close> is never run.
\<close>

theorem rename_failure_counterexample:
  "process_link_changes (sysfs_of broken_host) (live_interfaces broken_host) host_cm =
     Inr [(''eth1'', PDict [(''name'', PStr ''lan0'')]), (''eth2'', PDict [(''name'', PStr ''wan0'')])] \<and>
   fails broken_host (Check_call [''ip'', ''link'', ''set'', ''dev'', ''eth1'', ''name'', ''lan0'']) \<and>
   \<not> fails broken_host (Check_call [''ip'', ''link'', ''set'', ''dev'', ''eth2'', ''name'', ''wan0'']) \<and>
   snd (command_apply broken_host True False True) = Raised CalledProcessError \<and>
   last (fst (command_apply broken_host True False True)) =
     Check_call [''ip'', ''link'', ''set'', ''dev'', ''eth1'', ''name'', ''lan0''] \<and>
   Check_call [''ip'', ''link'', ''set'', ''dev'', ''eth2'', ''name'', ''wan0'']
     \<notin> set (fst (command_apply broken_host True False True)) \<and>
   Check_call [''udevadm'', ''settle''] \<notin> set (fst (command_apply broken_host True False True))"
  by code_simp

text \<open>
  C8, amended. When the rename primitive fails for one planned entry,
  \<open>CalledProcessError\<close> leaves \<open>command_apply\<close> at that call: the entries
  before it have been applied, the failing call is the last event of the
  pass, and so no later entry is applied, nothing is logged about the
  failure, and neither the settle phase nor the start phase runs.
\<close>

theorem rename_failure_aborts_the_pass:
  assumes "rn = restart_decision (networkd_files_before s \<noteq> []) (networkd_files_after s \<noteq> [])"
    and "rm = restart_decision (nm_files_before s \<noteq> []) (nm_files_after s \<noteq> [])"
    and "snd (generate s run_generate exit_on_error) = Returned"
    and "snd (stop_networkd s sync rn) = Returned"
    and "snd (stop_nm s sync rm (live_interfaces s)) = Returned"
    and "parsed s = Inr cm"
    and "process_link_changes (sysfs_of s) (live_interfaces s) cm =
           Inr (pre @ (iface, PDict [(''name'', PStr new_name)]) # post)"
    and "snd (trigger_link_rules s (live_interfaces s)) = Returned"
    and "snd (apply_renames s pre) = Returned"
    and "new_name \<noteq> []"
    and "fails s (Check_call [''ip'', ''link'', ''set'', ''dev'', iface, ''name'', new_name])"
  shows "command_apply s run_generate sync exit_on_error =
           (fst (generate s run_generate exit_on_error) @
            fst (stop_networkd s sync rn) @
            fst (stop_nm s sync rm (live_interfaces s)) @
            fst (trigger_link_rules s (live_interfaces s)) @
            fst (apply_renames s pre) @
            [Log ''applying name change for %s: now called %s'' [PStr iface, PStr new_name],
             Check_call [''ip'', ''link'', ''set'', ''dev'', iface, ''name'', new_name]],
            Raised CalledProcessError)"
proof -
  let ?fail = "[Log ''applying name change for %s: now called %s'' [PStr iface, PStr new_name],
                Check_call [''ip'', ''link'', ''set'', ''dev'', iface, ''name'', new_name]]"
  let ?chs = "pre @ (iface, PDict [(''name'', PStr new_name)]) # post"
  have ar: "apply_renames s ?chs = (fst (apply_renames s pre) @ ?fail, Raised CalledProcessError)"
    unfolding apply_renames_append apply_renames_failing[OF assms(10,11)]
    by (simp add: andthen_Returned[OF assms(9)])
  have rs: "rename_and_start s sync rn rm (live_interfaces s) =
              (fst (trigger_link_rules s (live_interfaces s)) @ fst (apply_renames s pre) @ ?fail,
               Raised CalledProcessError)"
    unfolding rename_and_start_def
    by (simp add: assms(6,7) ar andthen_Returned[OF assms(8)] andthen_raised)
  show ?thesis
    unfolding command_apply_def Let_def assms(1)[symmetric] assms(2)[symmetric] rs
    by (simp add: andthen_Returned[OF assms(3)] andthen_Returned[OF assms(4)] andthen_Returned[OF assms(5)])
qed

theorem rename_failure_aborts_the_pass_witness:
  "command_apply broken_host True False True =
     (fst (generate broken_host True True) @
      fst (stop_networkd broken_host False True) @
      fst (stop_nm broken_host False True (live_interfaces broken_host)) @
      fst (trigger_link_rules broken_host (live_interfaces broken_host)) @
      fst (apply_renames broken_host []) @
      [Log ''applying name change for %s: now called %s'' [PStr ''eth1'', PStr ''lan0''],
       Check_call [''ip'', ''link'', ''set'', ''dev'', ''eth1'', ''name'', ''lan0'']],
      Raised CalledProcessError)"
proof -
  have rn: "True = restart_decision (networkd_files_before broken_host \<noteq> []) (networkd_files_after broken_host \<noteq> [])"
    by code_simp
  have rm: "True = restart_decision (nm_files_before broken_host \<noteq> []) (nm_files_after broken_host \<noteq> [])"
    by code_simp
  have g: "snd (generate broken_host True True) = Returned" by code_simp
  have sn: "snd (stop_networkd broken_host False True) = Returned" by code_simp
  have sm: "snd (stop_nm broken_host False True (live_interfaces broken_host)) = Returned" by code_simp
  have p: "parsed broken_host = Inr host_cm" by (simp add: broken_host_def host_def)
  have c: "process_link_changes (sysfs_of broken_host) (live_interfaces broken_host) host_cm =
             Inr ([] @ (''eth1'', PDict [(''name'', PStr ''lan0'')]) # [(''eth2'', PDict [(''name'', PStr ''wan0'')])])"
    by code_simp
  have t: "snd (trigger_link_rules broken_host (live_interfaces broken_host)) = Returned" by code_simp
  have a: "snd (apply_renames broken_host []) = Returned" by simp
  have n: "''lan0'' \<noteq> []" by simp
  have f: "fails broken_host (Check_call [''ip'', ''link'', ''set'', ''dev'', ''eth1'', ''name'', ''lan0''])"
    by (simp add: broken_host_def)
  from rename_failure_aborts_the_pass[OF rn rm g sn sm p c t a n f] show ?thesis .
qed

section \<open>Running the planner twice\<close>

lemma record_change_lookup:
  "record_change t k i chs =
     (case lookup_item t k of
        Inl e \<Rightarrow> Inl e
      | Inr x \<Rightarrow> Inr (put i (case x of Some v \<Rightarrow> if v \<noteq> PStr i then Some v else None | None \<Rightarrow> None) chs))"
  by (simp add: record_change_def put_def split: sum.splits option.splits)

lemma record_twice:
  assumes "lookup_item td dn = Inr x" and "lookup_item tm mac = Inr y"
  shows "(case record_change td dn i chs of Inl e \<Rightarrow> Inl e | Inr c \<Rightarrow> record_change tm mac i c)
         = Inr (put i (decide x y i) chs)"
  using assms
  by (cases x; cases y) (simp_all add: record_change_lookup put_def decide_def)

lemma link_change_eligible:
  assumes "eligible sys phys comps i"
  shows "link_change sys phys comps m chs i =
     (case af_link sys i of
        Inl e \<Rightarrow> Inl e
      | Inr [] \<Rightarrow> Inl IndexError
      | Inr (link # _) \<Rightarrow>
          (case py_get link ''addr'' PNone of
             Inl e \<Rightarrow> Inl e
           | Inr macaddress \<Rightarrow>
               (case lookup_item (by_mac m) macaddress of
                  Inl e \<Rightarrow> Inl e
                | Inr y \<Rightarrow> Inr (put i (decide (by_driver m (driver_name_of sys i)) y i) chs))))"
proof -
  from assms obtain content where c: "operstate sys i = Some content" "strip content = ''down''"
    and p: "i \<in> fst ` set phys" and nm: "is_composite_member comps i = Inr False"
    by (auto simp: eligible_def)
  have k: "lookup_item (by_driver m) (driver_name_of sys i) = Inr (by_driver m (driver_name_of sys i))"
    by (simp add: lookup_item_def driver_name_of_def split: option.splits)
  have base: "link_change sys phys comps m chs i =
     (case af_link sys i of
        Inl e \<Rightarrow> Inl e
      | Inr [] \<Rightarrow> Inl IndexError
      | Inr (link # _) \<Rightarrow>
          (case py_get link ''addr'' PNone of
             Inl e \<Rightarrow> Inl e
           | Inr macaddress \<Rightarrow>
               (case record_change (by_driver m) (driver_name_of sys i) i chs of
                  Inl e \<Rightarrow> Inl e
                | Inr chs' \<Rightarrow> record_change (by_mac m) macaddress i chs')))"
    unfolding link_change_def driver_name_of_def using p nm c by (simp add: Let_def)
  show ?thesis
  proof (cases "af_link sys i")
    case (Inl e)
    then show ?thesis by (simp add: base)
  next
    case (Inr links)
    show ?thesis
    proof (cases links)
      case Nil
      with Inr show ?thesis by (simp add: base)
    next
      case (Cons link rest)
      show ?thesis
      proof (cases "py_get link ''addr'' PNone")
        case (Inl e)
        with Inr Cons show ?thesis by (simp add: base)
      next
        case mac: (Inr macaddress)
        show ?thesis
        proof (cases "lookup_item (by_mac m) macaddress")
          case (Inl e)
          have "record_change (by_mac m) macaddress i c = Inl e" for c
            by (simp add: record_change_lookup Inl)
          moreover have "\<exists>c. record_change (by_driver m) (driver_name_of sys i) i chs = Inr c"
            by (simp add: record_change_lookup k)
          ultimately show ?thesis using Inr Cons mac Inl by (auto simp: base)
        next
          case y: (Inr y)
          from record_twice[OF k y, of i chs] Inr Cons mac y show ?thesis by (simp add: base)
        qed
      qed
    qed
  qed
qed

lemma put_None: "put i None chs = chs"
  by (simp add: put_def)

lemma link_change_ineligible:
  assumes "\<not> eligible sys phys comps i"
    and "link_change sys phys comps m chs i = Inr chs'"
  shows "link_change sys phys comps m c i = Inr c"
proof (cases "i \<in> fst ` set phys")
  case False
  then show ?thesis by (simp add: link_change_def)
next
  case p: True
  show ?thesis
  proof (cases "is_composite_member comps i")
    case (Inl e)
    with p assms(2) show ?thesis by (simp add: link_change_def)
  next
    case (Inr member)
    show ?thesis
    proof (cases member)
      case True
      with p Inr show ?thesis by (simp add: link_change_def)
    next
      case False
      show ?thesis
      proof (cases "operstate sys i")
        case None
        with p Inr False show ?thesis by (simp add: link_change_def)
      next
        case (Some content)
        with assms(1) p Inr False have "strip content \<noteq> ''down''"
          by (simp add: eligible_def)
        with p Inr False Some show ?thesis by (simp add: link_change_def)
      qed
    qed
  qed
qed

lemma link_change_decision:
  assumes "link_change sys phys comps m chs i = Inr chs'"
  shows "link_change sys phys comps m c i = Inr (put i (decision sys phys comps m i) c)"
proof (cases "eligible sys phys comps i")
  case True
  note lc = link_change_eligible[OF True, of m]
  from assms lc[of chs] obtain links where l0: "af_link sys i = Inr links"
    by (cases "af_link sys i") simp_all
  from assms lc[of chs] l0 obtain link rest where l: "af_link sys i = Inr (link # rest)"
    by (cases links) simp_all
  from assms lc[of chs] l obtain mac where mc: "py_get link ''addr'' PNone = Inr mac"
    by (cases "py_get link ''addr'' PNone") simp_all
  from assms lc[of chs] l mc obtain y where y: "lookup_item (by_mac m) mac = Inr y"
    by (cases "lookup_item (by_mac m) mac") simp_all
  show ?thesis
    by (simp add: lc[of c] decision_def True l mc y)
next
  case False
  have d: "decision sys phys comps m i = None" by (simp add: decision_def False)
  from link_change_ineligible[OF False assms] show ?thesis by (simp add: d put_None)
qed

lemma link_loop_fold:
  "link_loop sys phys comps m chs is = Inr chs' \<Longrightarrow>
     chs' = fold (\<lambda>i. put i (decision sys phys comps m i)) is chs \<and>
     (\<forall>i \<in> set is. \<forall>c. link_change sys phys comps m c i = Inr (put i (decision sys phys comps m i) c))"
proof (induction "is" arbitrary: chs)
  case Nil
  then show ?case by simp
next
  case (Cons i "is")
  from Cons.prems obtain c1 where c1: "link_change sys phys comps m chs i = Inr c1"
    and r: "link_loop sys phys comps m c1 is = Inr chs'"
    by (cases "link_change sys phys comps m chs i") simp_all
  note d = link_change_decision[OF c1]
  from d[of chs] c1 have "c1 = put i (decision sys phys comps m i) chs" by simp
  with Cons.IH[OF r] d show ?case by simp
qed

lemma link_loop_identity:
  "\<forall>i \<in> set is. link_change sys phys comps m chs i = Inr chs \<Longrightarrow>
     link_loop sys phys comps m chs is = Inr chs"
  by (induction "is") simp_all

lemma map_of_put:
  "map_of (put i d chs) j =
     (if j = i then (case d of None \<Rightarrow> map_of chs i | Some v \<Rightarrow> Some (PDict [(''name'', v)]))
      else map_of chs j)"
  by (cases d) (simp_all add: put_def update_conv')

lemma map_of_fold_put:
  "map_of (fold (\<lambda>i. put i (f i)) is chs) j =
     (if j \<in> set is then (case f j of None \<Rightarrow> map_of chs j | Some v \<Rightarrow> Some (PDict [(''name'', v)]))
      else map_of chs j)"
proof (induction "is" arbitrary: chs)
  case Nil
  then show ?case by simp
next
  case (Cons i "is")
  have "map_of (fold (\<lambda>i. put i (f i)) (i # is) chs) j =
          map_of (fold (\<lambda>i. put i (f i)) is (put i (f i) chs)) j" by simp
  also have "\<dots> = (if j \<in> set is
                     then (case f j of None \<Rightarrow> map_of (put i (f i) chs) j
                           | Some v \<Rightarrow> Some (PDict [(''name'', v)]))
                     else map_of (put i (f i) chs) j)"
    by (rule Cons.IH)
  also have "\<dots> = (if j \<in> set (i # is)
                     then (case f j of None \<Rightarrow> map_of chs j | Some v \<Rightarrow> Some (PDict [(''name'', v)]))
                     else map_of chs j)"
    by (cases "j = i"; cases "f j") (simp_all add: map_of_put)
  finally show ?case .
qed

lemma distinct_put: "distinct (map fst chs) \<Longrightarrow> distinct (map fst (put i d chs))"
  by (cases d) (simp_all add: put_def distinct_update)

lemma distinct_fold_put:
  "distinct (map fst chs) \<Longrightarrow> distinct (map fst (fold (\<lambda>i. put i (f i)) is chs))"
  by (induction "is" arbitrary: chs) (simp_all add: distinct_put)

lemma decide_settled:
  assumes "decide x y i = Some (PStr n)"
    and "\<And>A B. x = Some A \<Longrightarrow> y = Some B \<Longrightarrow> A = B"
  shows "decide x y n = None"
proof (cases x)
  case xn: None
  show ?thesis
  proof (cases y)
    case None
    with xn assms(1) show ?thesis by (simp add: decide_def)
  next
    case (Some B)
    with xn assms(1) have "B = PStr n" by (simp add: decide_def split: if_splits)
    with xn Some show ?thesis by (simp add: decide_def)
  qed
next
  case xs: (Some A)
  show ?thesis
  proof (cases y)
    case None
    with xs assms(1) have "A = PStr n" by (simp add: decide_def split: if_splits)
    with xs None show ?thesis by (simp add: decide_def)
  next
    case (Some B)
    from assms(2)[OF xs Some] have ab: "A = B" .
    with xs Some assms(1) have "B = PStr n" by (simp add: decide_def split: if_splits)
    with ab xs Some show ?thesis by (simp add: decide_def)
  qed
qed

lemma after_renames_Cons:
  assumes "new_name_of settings = Some n"
  shows "after_renames ((i, settings) # rest) w = after_renames rest (renamed i n w)"
proof -
  from assms obtain v where g: "py_get settings ''name'' PNone = Inr v"
    by (cases "py_get settings ''name'' PNone") (simp_all add: new_name_of_def)
  from assms g have v: "v = PStr n" and n: "n \<noteq> []"
    by (cases v; simp add: new_name_of_def split: if_splits)+
  show ?thesis by (simp add: g v n)
qed

lemma planned_names_Cons:
  "new_name_of settings = Some n \<Longrightarrow> planned_names ((i, settings) # rest) = n # planned_names rest"
  by (simp add: planned_names_def List.map_filter_simps)

lemma same_device_renamed_new:
  "same_device (snd (renamed i n (cur, sys))) n sys i"
  by (simp add: same_device_def renamed_def moved_def)

lemma same_device_renamed_other:
  "j \<noteq> n \<Longrightarrow> j \<noteq> i \<Longrightarrow> same_device (snd (renamed i n (cur, sys))) j sys j"
  by (simp add: same_device_def renamed_def moved_def)

lemma same_device_trans:
  "same_device s2 k s1 j \<Longrightarrow> same_device s1 j s0 i \<Longrightarrow> same_device s2 k s0 i"
  by (simp add: same_device_def)

lemma name_after_absent:
  assumes "k \<notin> fst ` set chs"
  shows "name_after chs k = k"
proof -
  from assms have "map_of chs k = None" by (simp add: map_of_eq_None_iff)
  then show ?thesis by (simp add: name_after_def)
qed

lemma after_renames_char:
  assumes "distinct (map fst chs)" and "fst ` set chs \<subseteq> set cur"
    and "renameable chs" and "distinct (cur @ planned_names chs)"
  shows "fst (after_renames chs (cur, sys)) = map (name_after chs) cur \<and>
         (\<forall>j \<in> set cur. same_device (snd (after_renames chs (cur, sys))) (name_after chs j) sys j)"
  using assms
proof (induction chs arbitrary: cur sys)
  case Nil
  then show ?case by (simp add: name_after_def same_device_def)
next
  case (Cons e rest)
  obtain i settings where e: "e = (i, settings)" by (cases e)
  from Cons.prems(3) obtain n where n: "new_name_of settings = Some n"
    by (auto simp: renameable_def e)
  from Cons.prems(3) have rn: "renameable rest" by (simp add: renameable_def)
  from Cons.prems(1) have dk: "distinct (map fst rest)" and ik: "i \<notin> fst ` set rest"
    by (simp_all add: e)
  from Cons.prems(2) have icur: "i \<in> set cur" and kcur: "fst ` set rest \<subseteq> set cur"
    by (simp_all add: e)
  from Cons.prems(4) have dcur: "distinct cur" and ncur: "n \<notin> set cur"
    and npl: "n \<notin> set (planned_names rest)" and dpl: "distinct (planned_names rest)"
    and disj: "set cur \<inter> set (planned_names rest) = {}"
    by (auto simp: e planned_names_Cons[OF n])
  let ?f = "\<lambda>x. if x = i then n else x"
  let ?cur1 = "map ?f cur"
  let ?sys1 = "snd (renamed i n (cur, sys))"
  have f1: "fst (renamed i n (cur, sys)) = ?cur1" by (simp add: renamed_def)
  have inj: "inj_on ?f (set cur)"
    using ncur by (auto simp: inj_on_def)
  have d1: "distinct ?cur1" using dcur inj by (simp add: distinct_map)
  have s1: "set ?cur1 \<subseteq> insert n (set cur)" by auto
  have k1: "fst ` set rest \<subseteq> set ?cur1"
  proof
    fix k assume k: "k \<in> fst ` set rest"
    with ik have "k \<noteq> i" by auto
    moreover from k kcur have "k \<in> set cur" by auto
    ultimately have "?f k \<in> ?f ` set cur" "?f k = k" by auto
    then show "k \<in> set ?cur1" by simp
  qed
  have dd: "distinct (?cur1 @ planned_names rest)"
    using d1 dpl s1 npl disj by auto
  note IH = Cons.IH[OF dk k1 rn dd, of ?sys1]
  have step: "after_renames (e # rest) (cur, sys) = after_renames rest (?cur1, ?sys1)"
    unfolding e after_renames_Cons[OF n] f1[symmetric] by simp
  have nk: "n \<notin> fst ` set rest" using kcur ncur by auto
  have nn_i: "name_after (e # rest) i = n" by (simp add: name_after_def e n)
  have nn_o: "name_after (e # rest) j = name_after rest j" if "j \<noteq> i" for j
    using that by (simp add: name_after_def e)
  have nn_n: "name_after rest n = n" using nk by (rule name_after_absent)
  have m: "name_after rest (?f j) = name_after (e # rest) j" for j
    by (cases "j = i") (simp_all add: nn_i nn_o nn_n)
  have a: "fst (after_renames (e # rest) (cur, sys)) = map (name_after (e # rest)) cur"
    using IH by (simp add: step m comp_def)
  have b: "same_device (snd (after_renames (e # rest) (cur, sys))) (name_after (e # rest) j) sys j"
    if j: "j \<in> set cur" for j
  proof -
    from j have "?f j \<in> set ?cur1" by simp
    with IH have "same_device (snd (after_renames rest (?cur1, ?sys1))) (name_after rest (?f j)) ?sys1 (?f j)"
      by blast
    then have c: "same_device (snd (after_renames (e # rest) (cur, sys))) (name_after (e # rest) j) ?sys1 (?f j)"
      by (simp add: step m)
    have "same_device ?sys1 (?f j) sys j"
    proof (cases "j = i")
      case True
      then show ?thesis using same_device_renamed_new[of i n cur sys] by simp
    next
      case False
      moreover from j ncur have "j \<noteq> n" by auto
      ultimately show ?thesis using same_device_renamed_other[of j n i cur sys] by simp
    qed
    with c show ?thesis by (rule same_device_trans)
  qed
  from a b show ?case by blast
qed

lemma scan_composite_total:
  "scan_composite c i = Inr False \<Longrightarrow> \<exists>b. scan_composite c n = Inr b"
proof (induction c i rule: scan_composite.induct)
  case (1 phy)
  then show ?case by auto
next
  case (2 ident settings rest phy)
  from "2.prems" obtain members where g: "py_get settings ''interfaces'' (PList []) = Inr members"
    by (cases "py_get settings ''interfaces'' (PList [])") simp_all
  from "2.prems" g obtain ms where it: "py_iter members = Inr ms"
    by (cases "py_iter members") simp_all
  from "2.prems" g it have nf: "\<not> scan_members ms phy" and r: "scan_composite rest phy = Inr False"
    by (simp_all split: if_splits)
  from "2.IH"[OF g it nf r] g it show ?case by auto
qed

lemma is_composite_member_total:
  "is_composite_member comps i = Inr False \<Longrightarrow> \<exists>b. is_composite_member comps n = Inr b"
proof (induction comps)
  case Nil
  then show ?case by auto
next
  case (Cons c cs)
  from Cons.prems obtain found where f: "scan_composite c i = Inr found"
    by (cases "scan_composite c i") simp_all
  with Cons.prems have c: "scan_composite c i = Inr False" and r: "is_composite_member cs i = Inr False"
    by (simp_all split: if_splits)
  from scan_composite_total[OF c, of n] obtain b where b: "scan_composite c n = Inr b" by blast
  from Cons.IH[OF r] b show ?case by (cases b) auto
qed

lemma link_change_same_device:
  assumes "same_device sys' j sys j"
  shows "link_change sys' phys comps m c j = link_change sys phys comps m c j"
proof -
  from assms have a: "operstate sys' j = operstate sys j"
    and b: "driver_realpath sys' j = driver_realpath sys j"
    and c: "af_link sys' j = af_link sys j"
    by (simp_all add: same_device_def)
  show ?thesis unfolding link_change_def a b c ..
qed

lemma decision_SomeD:
  assumes "decision sys phys comps m i = Some v"
  obtains link rest mac y where "eligible sys phys comps i"
    "af_link sys i = Inr (link # rest)" "py_get link ''addr'' PNone = Inr mac"
    "lookup_item (by_mac m) mac = Inr y"
    "decide (by_driver m (driver_name_of sys i)) y i = Some v"
proof -
  from assms have e: "eligible sys phys comps i"
    by (simp add: decision_def split: if_splits)
  from assms e obtain links where l0: "af_link sys i = Inr links"
    by (cases "af_link sys i") (simp_all add: decision_def)
  from assms e l0 obtain link rest where l: "af_link sys i = Inr (link # rest)"
    by (cases links) (simp_all add: decision_def)
  from assms e l obtain mac where mc: "py_get link ''addr'' PNone = Inr mac"
    by (cases "py_get link ''addr'' PNone") (simp_all add: decision_def)
  from assms e l mc obtain y where y: "lookup_item (by_mac m) mac = Inr y"
    by (cases "lookup_item (by_mac m) mac") (simp_all add: decision_def)
  from assms e l mc y have "decide (by_driver m (driver_name_of sys i)) y i = Some v"
    by (simp add: decision_def)
  with e l mc y that show ?thesis by blast
qed

lemma settled_after_rename:
  assumes d: "decision sys phys comps m i = Some (PStr n)"
    and ag: "agree sys m i"
    and sd: "same_device sys' n sys i"
  shows "link_change sys' phys comps m c n = Inr c"
proof -
  from d obtain link rest mac y where e: "eligible sys phys comps i"
    and l: "af_link sys i = Inr (link # rest)" and mc: "py_get link ''addr'' PNone = Inr mac"
    and y: "lookup_item (by_mac m) mac = Inr y"
    and dc: "decide (by_driver m (driver_name_of sys i)) y i = Some (PStr n)"
    by (rule decision_SomeD)
  from sd have o': "operstate sys' n = operstate sys i"
    and r': "driver_realpath sys' n = driver_realpath sys i"
    and l': "af_link sys' n = af_link sys i"
    by (simp_all add: same_device_def)
  have dn: "driver_name_of sys' n = driver_name_of sys i"
    by (simp add: driver_name_of_def r')
  from e have nm: "is_composite_member comps i = Inr False"
    and st: "map_option strip (operstate sys i) = Some ''down''"
    by (simp_all add: eligible_def)
  from is_composite_member_total[OF nm, of n] obtain b where b: "is_composite_member comps n = Inr b"
    by blast
  show ?thesis
  proof (cases "eligible sys' phys comps n")
    case True
    have "decide (by_driver m (driver_name_of sys i)) y n = None"
    proof (rule decide_settled[OF dc])
      fix A B assume x: "by_driver m (driver_name_of sys i) = Some A" and "y = Some B"
      with ag l mc y show "A = B" by (simp add: agree_def)
    qed
    then show ?thesis
      by (simp add: link_change_eligible[OF True] l' l mc y dn put_None)
  next
    case False
    show ?thesis
    proof (cases "n \<in> fst ` set phys")
      case False
      then show ?thesis by (simp add: link_change_def)
    next
      case p: True
      with False b st o' have "b" by (cases b) (simp_all add: eligible_def)
      with p b show ?thesis by (simp add: link_change_def)
    qed
  qed
qed

lemma decide_None:
  assumes "\<And>A. x = Some A \<Longrightarrow> A = PStr i" and "\<And>B. y = Some B \<Longrightarrow> B = PStr i"
  shows "decide x y i = None"
proof (cases x)
  case xn: None
  show ?thesis
  proof (cases y)
    case None
    with xn show ?thesis by (simp add: decide_def)
  next
    case (Some B)
    with assms(2) xn show ?thesis by (simp add: decide_def)
  qed
next
  case xs: (Some A)
  with assms(1) have a: "A = PStr i" by simp
  show ?thesis
  proof (cases y)
    case None
    with xs a show ?thesis by (simp add: decide_def)
  next
    case (Some B)
    with assms(2) xs a show ?thesis by (simp add: decide_def)
  qed
qed

lemma settled_no_entry:
  assumes "settled sys cm i"
    and "process_link_changes sys interfaces cm = Inr chs"
  shows "i \<notin> fst ` set chs"
proof -
  let ?phys = "physical_interfaces cm"
  let ?comps = "[bridges cm, bonds cm]"
  from assms(2) obtain m where bm: "build_matches no_matches ?phys = Inr m"
    by (cases "build_matches no_matches ?phys") (simp_all add: process_link_changes_def Let_def)
  with assms(2) have loop: "link_loop sys ?phys ?comps m [] interfaces = Inr chs"
    by (simp add: process_link_changes_def Let_def)
  from link_loop_fold[OF loop]
  have chs: "chs = fold (\<lambda>i. put i (decision sys ?phys ?comps m i)) interfaces []" by blast
  from assms(1) bm
  have sd: "\<And>A. by_driver m (driver_name_of sys i) = Some A \<Longrightarrow> A = PStr i"
    and sm: "(case af_link sys i of
             Inr (link # _) \<Rightarrow>
               (case py_get link ''addr'' PNone of
                  Inr macaddress \<Rightarrow>
                    (case lookup_item (by_mac m) macaddress of
                       Inr (Some B) \<Rightarrow> B = PStr i
                     | _ \<Rightarrow> True)
                | _ \<Rightarrow> True)
           | _ \<Rightarrow> True)"
    by (simp_all add: settled_def)
  have "decision sys ?phys ?comps m i = None"
  proof (cases "decision sys ?phys ?comps m i")
    case None
    then show ?thesis .
  next
    case (Some v)
    then obtain link rest mac y where l: "af_link sys i = Inr (link # rest)"
      and mc: "py_get link ''addr'' PNone = Inr mac"
      and y: "lookup_item (by_mac m) mac = Inr y"
      and dc: "decide (by_driver m (driver_name_of sys i)) y i = Some v"
      by (rule decision_SomeD)
    have "decide (by_driver m (driver_name_of sys i)) y i = None"
    proof (rule decide_None)
      fix A assume "by_driver m (driver_name_of sys i) = Some A"
      then show "A = PStr i" by (rule sd)
    next
      fix B assume "y = Some B"
      with sm l mc y show "B = PStr i" by simp
    qed
    with dc show ?thesis by simp
  qed
  then have "map_of chs i = None"
    unfolding chs map_of_fold_put by simp
  then show ?thesis by (simp add: map_of_eq_None_iff)
qed

lemma second_run_Nil:
  assumes "process_link_changes sys interfaces cm = Inr chs"
    and "renameable chs"
    and "distinct (interfaces @ planned_names chs)"
    and "list_all (conflict_free sys cm) interfaces"
  shows "second_run sys interfaces cm = Inr []"
proof -
  let ?phys = "physical_interfaces cm"
  let ?comps = "[bridges cm, bonds cm]"
  from assms(1) obtain m where bm: "build_matches no_matches ?phys = Inr m"
    by (cases "build_matches no_matches ?phys") (simp_all add: process_link_changes_def Let_def)
  with assms(1) have loop: "link_loop sys ?phys ?comps m [] interfaces = Inr chs"
    by (simp add: process_link_changes_def Let_def)
  let ?D = "decision sys ?phys ?comps m"
  from link_loop_fold[OF loop] have chs: "chs = fold (\<lambda>i. put i (?D i)) interfaces []"
    and steps: "\<And>i c. i \<in> set interfaces \<Longrightarrow> link_change sys ?phys ?comps m c i = Inr (put i (?D i) c)"
    by blast+
  have mo: "map_of chs j =
              (if j \<in> set interfaces
               then (case ?D j of None \<Rightarrow> None | Some v \<Rightarrow> Some (PDict [(''name'', v)]))
               else None)" for j
    unfolding chs map_of_fold_put by (simp split: option.splits)
  have keys: "fst ` set chs \<subseteq> set interfaces"
  proof
    fix k assume "k \<in> fst ` set chs"
    then have "map_of chs k \<noteq> None" by (simp add: map_of_eq_None_iff)
    then show "k \<in> set interfaces" by (simp add: mo split: if_splits)
  qed
  have dk: "distinct (map fst chs)"
    unfolding chs by (rule distinct_fold_put) simp
  let ?w = "after_renames chs (interfaces, sys)"
  from after_renames_char[OF dk keys assms(2,3), of sys]
  have ifs': "fst ?w = map (name_after chs) interfaces"
    and same: "\<And>j. j \<in> set interfaces \<Longrightarrow> same_device (snd ?w) (name_after chs j) sys j"
    by blast+
  have ident: "link_change (snd ?w) ?phys ?comps m [] (name_after chs i) = Inr []"
    if i: "i \<in> set interfaces" for i
  proof (cases "?D i")
    case None
    with i have "map_of chs i = None" by (simp add: mo)
    then have nn: "name_after chs i = i" by (simp add: name_after_def)
    from same[OF i] have "same_device (snd ?w) i sys i" by (simp add: nn)
    from link_change_same_device[OF this] steps[OF i, of "[]"] None
    show ?thesis by (simp add: nn put_None)
  next
    case (Some v)
    with i have mi: "map_of chs i = Some (PDict [(''name'', v)])" by (simp add: mo)
    then have "(i, PDict [(''name'', v)]) \<in> set chs" by (rule map_of_SomeD)
    with assms(2) have "new_name_of (PDict [(''name'', v)]) \<noteq> None"
      by (auto simp: renameable_def list_all_iff)
    then obtain n where n: "new_name_of (PDict [(''name'', v)]) = Some n" by blast
    then have v: "v = PStr n"
      by (cases v) (simp_all add: new_name_of_def split: if_splits)
    have nn: "name_after chs i = n" by (simp add: name_after_def mi n)
    from assms(4) i have "conflict_free sys cm i" by (simp add: list_all_iff)
    then have ag: "agree sys m i" by (simp add: conflict_free_def bm)
    from Some v have d: "?D i = Some (PStr n)" by simp
    from same[OF i] have sd: "same_device (snd ?w) n sys i" by (simp add: nn)
    from settled_after_rename[OF d ag sd] show ?thesis by (simp add: nn)
  qed
  have "link_loop (snd ?w) ?phys ?comps m [] (fst ?w) = Inr []"
    unfolding ifs' by (rule link_loop_identity) (auto simp: ident)
  then have "process_link_changes (snd ?w) (fst ?w) cm = Inr []"
    by (simp add: process_link_changes_def Let_def bm)
  then show ?thesis
    unfolding second_run_def assms(1) by simp
qed

text \<open>
  C5, as stated: the planner, run again on the state left by applying its
  first change set, plans nothing. On a host whose only interface \<open>eth0\<close>
  matches a driver rule for \<open>ethA\<close> and a hardware-address rule for \<open>ethB\<close>,
  the first run renames \<open>eth0\<close> to \<open>ethB\<close> and the second run plans to rename
  \<open>ethB\<close> to \<open>ethA\<close>.
\<close>

theorem second_run_counterexample:
  "process_link_changes torn_sysfs [''eth0''] torn_cm = Inr [(''eth0'', PDict [(''name'', PStr ''ethB'')])] \<and>
   fst (after_renames [(''eth0'', PDict [(''name'', PStr ''ethB'')])] ([''eth0''], torn_sysfs)) = [''ethB''] \<and>
   second_run torn_sysfs [''eth0''] torn_cm = Inr [(''ethB'', PDict [(''name'', PStr ''ethA'')])]"
  by code_simp

text \<open>
  C5, amended. The second run plans nothing provided that the first change
  set can be carried out (every new name is a non-empty string, and the new
  names differ from one another and from the names of the live interfaces,
  which are distinct) and that no live interface has its driver name and its
  hardware address mapped to two different target names. In any run, an
  interface that is settled produces no entry.
\<close>

theorem second_run_is_empty:
  "(process_link_changes sys interfaces cm = Inr chs \<longrightarrow>
    renameable chs \<longrightarrow>
    distinct (interfaces @ planned_names chs) \<longrightarrow>
    list_all (conflict_free sys cm) interfaces \<longrightarrow>
      second_run sys interfaces cm = Inr []) \<and>
   (settled sys cm interface \<longrightarrow>
    process_link_changes sys interfaces cm = Inr chs \<longrightarrow>
      interface \<notin> fst ` set chs)"
proof (intro conjI impI)
  assume "process_link_changes sys interfaces cm = Inr chs" and "renameable chs"
    and "distinct (interfaces @ planned_names chs)"
    and "list_all (conflict_free sys cm) interfaces"
  then show "second_run sys interfaces cm = Inr []" by (rule second_run_Nil)
next
  assume "settled sys cm interface" and "process_link_changes sys interfaces cm = Inr chs"
  then show "interface \<notin> fst ` set chs" by (rule settled_no_entry)
qed

theorem second_run_is_empty_witness:
  "process_link_changes host_sysfs host_interfaces host_cm =
     Inr [(''eth1'', PDict [(''name'', PStr ''lan0'')]), (''eth2'', PDict [(''name'', PStr ''wan0'')])] \<and>
   renameable [(''eth1'', PDict [(''name'', PStr ''lan0'')]), (''eth2'', PDict [(''name'', PStr ''wan0'')])] \<and>
   distinct (host_interfaces @
             planned_names [(''eth1'', PDict [(''name'', PStr ''lan0'')]), (''eth2'', PDict [(''name'', PStr ''wan0'')])]) \<and>
   list_all (conflict_free host_sysfs host_cm) host_interfaces \<and>
   fst (after_renames [(''eth1'', PDict [(''name'', PStr ''lan0'')]), (''eth2'', PDict [(''name'', PStr ''wan0'')])]
          (host_interfaces, host_sysfs)) = [''lo'', ''eth0'', ''lan0'', ''wan0'', ''eth3''] \<and>
   second_run host_sysfs host_interfaces host_cm = Inr [] \<and>
   eligible host_sysfs [(''lan0'', rule ''lan0'' [(''driver'', PStr ''e1000'')])] [[], []] ''lan0'' \<and>
   settled host_sysfs
     \<lparr>physical_interfaces = [(''lan0'', rule ''lan0'' [(''driver'', PStr ''e1000'')])],
      bridges = [], bonds = []\<rparr> ''lan0'' \<and>
   process_link_changes host_sysfs [''lan0'']
     \<lparr>physical_interfaces = [(''lan0'', rule ''lan0'' [(''driver'', PStr ''e1000'')])],
      bridges = [], bonds = []\<rparr> = Inr [] \<and>
   ''lan0'' \<notin> fst ` set ([] :: changes)"
proof -
  let ?chs = "[(''eth1'', PDict [(''name'', PStr ''lan0'')]), (''eth2'', PDict [(''name'', PStr ''wan0'')])]"
  let ?cm = "\<lparr>physical_interfaces = [(''lan0'', rule ''lan0'' [(''driver'', PStr ''e1000'')])],
              bridges = [], bonds = []\<rparr>"
  have p: "process_link_changes host_sysfs host_interfaces host_cm = Inr ?chs" by code_simp
  have r: "renameable ?chs" by code_simp
  have d: "distinct (host_interfaces @ planned_names ?chs)" by code_simp
  have c: "list_all (conflict_free host_sysfs host_cm) host_interfaces" by code_simp
  have a: "fst (after_renames ?chs (host_interfaces, host_sysfs)) = [''lo'', ''eth0'', ''lan0'', ''wan0'', ''eth3'']"
    by code_simp
  have g: "eligible host_sysfs [(''lan0'', rule ''lan0'' [(''driver'', PStr ''e1000'')])] [[], []] ''lan0''"
    by code_simp
  have s: "settled host_sysfs ?cm ''lan0''" by code_simp
  have q: "process_link_changes host_sysfs [''lan0''] ?cm = Inr []" by code_simp
  from second_run_is_empty[of host_sysfs host_interfaces host_cm ?chs] p r d c
  have e: "second_run host_sysfs host_interfaces host_cm = Inr []" by blast
  from second_run_is_empty[of host_sysfs "[''lan0'']" ?cm "[]" "''lan0''"] s q
  have n: "''lan0'' \<notin> fst ` set ([] :: changes)" by blast
  from p r d c a e g s q n show ?thesis by blast
qed


end
